theory Spec2Isabelle
  imports Main "HOL-Library.Word"
begin

section \<open>Append and prepend on stored values\<close>

text \<open>
  The development follows \<^verbatim>\<open>src/btree/append_prepend.cc\<close>,
  \<^verbatim>\<open>src/btree/btree_data_provider.cc\<close> and \<^verbatim>\<open>src/data_provider.hpp\<close>.
  Mutation is explicit state passing. A failed \<^verbatim>\<open>rassert\<close> and an access outside an
  array are values of type \<open>crash\<close>. The exception \<^verbatim>\<open>data_provider_failed_exc_t\<close> is a
  flag returned by the provider. Byte counts are natural numbers; where the source
  keeps one in a fixed-width integer the reduction modulo the width is written out.
\<close>

subsection \<open>Constants, bytes and arrays\<close>

type_synonym byte = "8 word"

text \<open>
  The sources use \<^verbatim>\<open>MAX_VALUE_SIZE\<close>, \<^verbatim>\<open>MAX_IN_NODE_VALUE_SIZE\<close>, the cache's block size
  and the encoded size of a large-buffer reference without defining them in the files
  at hand, so they are parameters. \<open>block_size\<close> is the number of value bytes a segment
  holds; \<open>refsize c size offset\<close> is the encoded size of a reference with that size and
  offset.
\<close>

record config =
  MAX_VALUE_SIZE :: nat
  MAX_IN_NODE_VALUE_SIZE :: nat
  block_size :: nat
  refsize :: "nat \<Rightarrow> nat \<Rightarrow> nat"

datatype crash = Assertion_failed | Out_of_bounds

text \<open>
  The C library's copies on an array \<open>m\<close>: \<^verbatim>\<open>memcpy\<close> of \<open>bs\<close> to index \<open>k\<close>, a read of
  \<open>n\<close> bytes from index \<open>k\<close>, and \<^verbatim>\<open>memmove(m + dst, m + src, n)\<close>. Outside the array
  they are a crash.
\<close>

definition overwrite :: "nat \<Rightarrow> byte list \<Rightarrow> byte list \<Rightarrow> byte list" where
  "overwrite k bs m = take k m @ bs @ drop (k + length bs) m"

definition write_at :: "nat \<Rightarrow> byte list \<Rightarrow> byte list \<Rightarrow> crash + byte list" where
  "write_at k bs m =
     (if k + length bs \<le> length m then Inr (overwrite k bs m) else Inl Out_of_bounds)"

definition read_at :: "nat \<Rightarrow> nat \<Rightarrow> byte list \<Rightarrow> crash + byte list" where
  "read_at k n m =
     (if k + n \<le> length m then Inr (take n (drop k m)) else Inl Out_of_bounds)"

definition memmove :: "nat \<Rightarrow> nat \<Rightarrow> nat \<Rightarrow> byte list \<Rightarrow> crash + byte list" where
  "memmove dst src n m =
     (case read_at src n m of Inl e \<Rightarrow> Inl e | Inr bs \<Rightarrow> write_at dst bs m)"

subsection \<open>Stored values\<close>

text \<open>
  Modelled from the spec: \<^verbatim>\<open>large_buf_ref\<close> and \<^verbatim>\<open>btree_value\<close>, declared in headers that
  are not among the sources. A value has a header size field, the large-value flag,
  the inline bytes and, when large, a reference holding the total byte length, the
  mapping origin (the offset of byte 0 inside the first segment) and the buffer it
  names. The C union overlays the reference on the inline bytes; here they are two
  fields.
\<close>

record large_buf_ref =
  r_size :: nat
  r_offset :: nat
  r_root :: nat

record btree_value =
  v_size :: nat
  v_large :: bool
  v_contents :: "byte list"
  v_ref :: large_buf_ref

text \<open>Modelled from the spec: \<^verbatim>\<open>btree_value::is_large\<close>, the representation tag.\<close>

definition is_large :: "btree_value \<Rightarrow> bool" where
  "is_large v = v_large v"

text \<open>
  Modelled from the spec: the getter \<^verbatim>\<open>btree_value::value_size()\<close>, the logical byte
  length: the header size of a small value, the length in the reference of a large one.
\<close>

definition value_size :: "btree_value \<Rightarrow> nat" where
  "value_size v = (if is_large v then r_size (v_ref v) else v_size v)"

text \<open>
  Modelled from the spec: the setter \<^verbatim>\<open>btree_value::value_size(new_size, block_size)\<close>.
  It tags the value by the inline threshold; for a large value the header size becomes
  the encoded size of a fresh reference (offset 0) and the reference records the
  length.
\<close>

definition set_value_size :: "config \<Rightarrow> nat \<Rightarrow> btree_value \<Rightarrow> btree_value" where
  "set_value_size c new_size v =
     (if new_size \<le> MAX_IN_NODE_VALUE_SIZE c
      then v\<lparr>v_large := False, v_size := new_size\<rparr>
      else v\<lparr>v_large := True, v_size := refsize c new_size 0,
             v_ref := (v_ref v)\<lparr>r_size := new_size\<rparr>\<rparr>)"

text \<open>
  Modelled from the spec: \<^verbatim>\<open>valuecpy\<close> copies the header and the inline bytes into the
  operation's own array of \<^verbatim>\<open>MAX_BTREE_VALUE_SIZE\<close> bytes, which has room for
  \<open>MAX_IN_NODE_VALUE_SIZE\<close> inline bytes; the bytes it does not write read as 0.
\<close>

definition valuecpy :: "config \<Rightarrow> btree_value \<Rightarrow> btree_value" where
  "valuecpy c src =
     src\<lparr>v_contents := take (v_size src) (v_contents src) @
                        replicate (MAX_IN_NODE_VALUE_SIZE c - v_size src) 0\<rparr>"

subsection \<open>Large buffers\<close>

text \<open>
  Modelled from the spec: \<^verbatim>\<open>large_buf_t\<close>, whose sources are not at hand. The segments of
  a buffer lie end to end in \<open>lb_mem\<close>, segment \<open>ix\<close> being the \<open>block_size\<close> bytes from
  \<open>ix * block_size\<close>; byte \<open>pos\<close> of the value is at address \<open>r_offset + pos\<close>, so the
  first and the last segment may be partly used. The cache is the list of all buffers,
  a handle is an index into it.
\<close>

record large_buf_t =
  lb_mem :: "byte list"
  lb_deleted :: bool

type_synonym cache = "large_buf_t list"

text \<open>Modelled from the spec: the number of segments a reference spans.\<close>

definition num_segs :: "config \<Rightarrow> large_buf_ref \<Rightarrow> nat" where
  "num_segs c r = (r_offset r + r_size r + block_size c - 1) div block_size c"

text \<open>
  Modelled from the spec: \<^verbatim>\<open>large_buf_t::pos_to_ix\<close> and \<^verbatim>\<open>large_buf_t::pos_to_seg_pos\<close>,
  the segment a position lies in and its offset from the start of the used part of that
  segment.
\<close>

definition pos_to_ix :: "config \<Rightarrow> large_buf_ref \<Rightarrow> nat \<Rightarrow> nat" where
  "pos_to_ix c r pos = (pos + r_offset r) div block_size c"

definition pos_to_seg_pos :: "config \<Rightarrow> large_buf_ref \<Rightarrow> nat \<Rightarrow> nat" where
  "pos_to_seg_pos c r pos =
     (if pos + r_offset r < block_size c then pos
      else (pos + r_offset r) mod block_size c)"

text \<open>
  A pointer is either into the operation's inline array (\<^verbatim>\<open>value.value() + k\<close>) or into
  segment \<open>ix\<close> of the large buffer, \<open>k\<close> bytes after the start of its block.
\<close>

datatype ptr = Value_mem nat | Seg_mem nat nat

fun ptr_add :: "ptr \<Rightarrow> nat \<Rightarrow> ptr" where
  "ptr_add (Value_mem k) n = Value_mem (k + n)"
| "ptr_add (Seg_mem ix k) n = Seg_mem ix (k + n)"

text \<open>
  Modelled from the spec: \<^verbatim>\<open>large_buf_t::get_segment_write(ix, &seg_len)\<close>, the start of
  the used part of segment \<open>ix\<close> and its length (a \<^verbatim>\<open>uint16_t\<close>); an index past the last
  segment fails an assertion.
\<close>

definition get_segment_write :: "config \<Rightarrow> large_buf_ref \<Rightarrow> nat \<Rightarrow> crash + ptr \<times> nat" where
  "get_segment_write c r ix =
     (if ix < num_segs c r
      then let lo = (if ix = 0 then r_offset r else ix * block_size c);
               hi = min ((ix + 1) * block_size c) (r_offset r + r_size r)
           in Inr (Seg_mem ix (lo - ix * block_size c), (hi - lo) mod 2 ^ 16)
      else Inl Assertion_failed)"

text \<open>
  Modelled from the spec: \<^verbatim>\<open>large_buf_t::allocate\<close>, a new buffer of the given size with
  origin 0; its bytes read as 0 until they are written.
\<close>

definition allocate :: "config \<Rightarrow> nat \<Rightarrow> nat \<Rightarrow> large_buf_ref \<times> large_buf_t" where
  "allocate c new_size root =
     (let r = \<lparr>r_size = new_size, r_offset = 0, r_root = root\<rparr>
      in (r, \<lparr>lb_mem = replicate (num_segs c r * block_size c) 0, lb_deleted = False\<rparr>))"

text \<open>
  Modelled from the spec: \<^verbatim>\<open>large_buf_t::fill_at(pos, data, len)\<close> copies \<open>len\<close> bytes to
  position \<open>pos\<close> of the value; the range must lie inside the value.
\<close>

definition fill_at ::
  "large_buf_ref \<Rightarrow> large_buf_t \<Rightarrow> nat \<Rightarrow> byte list \<Rightarrow> nat \<Rightarrow> crash + large_buf_t" where
  "fill_at r b pos src len =
     (if pos + len \<le> r_size r \<and> len \<le> length src
      then case write_at (r_offset r + pos) (take len src) (lb_mem b) of
             Inl e \<Rightarrow> Inl e
           | Inr m \<Rightarrow> Inr (b\<lparr>lb_mem := m\<rparr>)
      else Inl Assertion_failed)"

text \<open>Modelled from the spec: the encoded size of a reference.\<close>

definition refsize_of :: "config \<Rightarrow> large_buf_ref \<Rightarrow> int" where
  "refsize_of c r = int (refsize c (r_size r) (r_offset r))"

text \<open>
  Modelled from the spec: \<^verbatim>\<open>large_buf_t::append\<close> and \<^verbatim>\<open>large_buf_t::prepend\<close> change the
  reference they are tied to and the segments, and report by how much the encoded size
  of the reference changed. Growth at the end adds segments at the end; growth at the
  front uses the free bytes before the origin and adds whole segments in front when
  they do not suffice, which moves the origin and no stored byte.
\<close>

definition lb_append ::
  "config \<Rightarrow> large_buf_ref \<Rightarrow> large_buf_t \<Rightarrow> nat \<Rightarrow> large_buf_ref \<times> large_buf_t \<times> int" where
  "lb_append c r b n =
     (let r' = r\<lparr>r_size := r_size r + n\<rparr>
      in (r',
          b\<lparr>lb_mem := lb_mem b @ replicate (num_segs c r' * block_size c - length (lb_mem b)) 0\<rparr>,
          refsize_of c r' - refsize_of c r))"

definition lb_prepend ::
  "config \<Rightarrow> large_buf_ref \<Rightarrow> large_buf_t \<Rightarrow> nat \<Rightarrow> large_buf_ref \<times> large_buf_t \<times> int" where
  "lb_prepend c r b n =
     (let k = (if n \<le> r_offset r then 0
               else (n - r_offset r + block_size c - 1) div block_size c);
          r' = r\<lparr>r_offset := r_offset r + k * block_size c - n, r_size := r_size r + n\<rparr>
      in (r',
          b\<lparr>lb_mem := replicate (k * block_size c) 0 @ lb_mem b\<rparr>,
          refsize_of c r' - refsize_of c r))"

text \<open>
  Modelled from the spec: \<^verbatim>\<open>large_buf_t::unappend\<close> and \<^verbatim>\<open>large_buf_t::unprepend\<close> shrink
  the buffer by \<open>n\<close> bytes at the end and at the front, and give up the segments that
  hold no byte of the value any more.
\<close>

definition lb_unappend ::
  "config \<Rightarrow> large_buf_ref \<Rightarrow> large_buf_t \<Rightarrow> nat \<Rightarrow> crash + large_buf_ref \<times> large_buf_t \<times> int" where
  "lb_unappend c r b n =
     (if n \<le> r_size r
      then let r' = r\<lparr>r_size := r_size r - n\<rparr>
           in Inr (r',
                   b\<lparr>lb_mem := take (num_segs c r' * block_size c) (lb_mem b)\<rparr>,
                   refsize_of c r' - refsize_of c r)
      else Inl Assertion_failed)"

definition lb_unprepend ::
  "config \<Rightarrow> large_buf_ref \<Rightarrow> large_buf_t \<Rightarrow> nat \<Rightarrow> crash + large_buf_ref \<times> large_buf_t \<times> int" where
  "lb_unprepend c r b n =
     (if n \<le> r_size r
      then let k = (r_offset r + n) div block_size c;
               r' = r\<lparr>r_offset := (r_offset r + n) mod block_size c, r_size := r_size r - n\<rparr>
           in Inr (r',
                   b\<lparr>lb_mem := drop (k * block_size c) (lb_mem b)\<rparr>,
                   refsize_of c r' - refsize_of c r)
      else Inl Assertion_failed)"

text \<open>Modelled from the spec: \<^verbatim>\<open>large_buf_t::mark_deleted\<close>.\<close>

definition mark_deleted :: "large_buf_t \<Rightarrow> large_buf_t" where
  "mark_deleted b = b\<lparr>lb_deleted := True\<rparr>"

text \<open>The bytes of a value: the inline bytes, or the bytes its reference maps to.\<close>

definition lb_bytes :: "large_buf_ref \<Rightarrow> large_buf_t \<Rightarrow> byte list" where
  "lb_bytes r b = take (r_size r) (drop (r_offset r) (lb_mem b))"

definition value_bytes :: "cache \<Rightarrow> btree_value \<Rightarrow> byte list" where
  "value_bytes tx v =
     (if is_large v then lb_bytes (v_ref v) (tx ! r_root (v_ref v))
      else take (v_size v) (v_contents v))"

subsection \<open>Buffer groups (\<^verbatim>\<open>data_provider.hpp\<close>, lines 10 to 50)\<close>

record buffer_t =
  size_b :: nat
  data_b :: ptr

record buffer_group_t =
  buffers :: "buffer_t list"

definition add_buffer :: "nat \<Rightarrow> ptr \<Rightarrow> buffer_group_t \<Rightarrow> buffer_group_t" where
  "add_buffer s d g = g\<lparr>buffers := buffers g @ [\<lparr>size_b = s, data_b = d\<rparr>]\<rparr>"

definition get_size_bg :: "buffer_group_t \<Rightarrow> nat" where
  "get_size_bg g = fold (\<lambda>b s. s + size_b b) (buffers g) 0"

text \<open>
  A span of a read-only group is a length and an index into the array it reads from.
\<close>

record const_buffer_t =
  size_cb :: nat
  data_cb :: nat

record const_buffer_group_t =
  cbuffers :: "const_buffer_t list"

definition add_cbuffer :: "nat \<Rightarrow> nat \<Rightarrow> const_buffer_group_t \<Rightarrow> const_buffer_group_t" where
  "add_cbuffer s d g = g\<lparr>cbuffers := cbuffers g @ [\<lparr>size_cb = s, data_cb = d\<rparr>]\<rparr>"

subsection \<open>Data providers\<close>

text \<open>
  Modelled from the spec: the bodies of \<^verbatim>\<open>get_size\<close> and \<^verbatim>\<open>get_data_into_buffers\<close>.
  \<^verbatim>\<open>data_provider_t\<close> (\<^verbatim>\<open>data_provider.hpp\<close>, lines 52 to 107) declares them pure
  virtual, and the subclasses that define them are not among the sources. A provider
  stands for the read-only array \<open>dp_bytes\<close>, whose length is its size. A provider with
  \<open>dp_fail = Some k\<close> throws \<^verbatim>\<open>data_provider_failed_exc_t\<close> from
  \<^verbatim>\<open>get_data_into_buffers\<close> after it has written \<open>k\<close> bytes (all of them when \<open>k\<close> is
  larger than the array): nothing is promised about the destination then.
\<close>

record data_provider_t =
  dp_bytes :: "byte list"
  dp_fail :: "nat option"

definition get_size :: "data_provider_t \<Rightarrow> nat" where
  "get_size d = length (dp_bytes d)"

definition delivered :: "data_provider_t \<Rightarrow> byte list" where
  "delivered d = (case dp_fail d of None \<Rightarrow> dp_bytes d | Some k \<Rightarrow> take k (dp_bytes d))"

text \<open>
  Modelled from the spec: the results of the operation, \<^verbatim>\<open>append_prepend_result_t\<close>
  (declared in \<^verbatim>\<open>append_prepend.hpp\<close>).
\<close>

datatype append_prepend_result_t =
  apr_success | apr_too_large | apr_not_found | apr_data_provider_failed

subsection \<open>The operation object (\<^verbatim>\<open>append_prepend.cc\<close>)\<close>

text \<open>
  The fields of \<^verbatim>\<open>btree_append_prepend_oper_t\<close> (lines 148 to 159) and its constructor
  (lines 7 to 9). \<open>o_result\<close> is \<open>None\<close> until it is assigned; a lock
  (\<^verbatim>\<open>large_buf_lock_t\<close>) is \<open>None\<close> when it holds no buffer and the buffer's handle
  otherwise.
\<close>

record btree_append_prepend_oper_t =
  o_result :: "append_prepend_result_t option"
  o_data :: data_provider_t
  o_append :: bool
  o_value :: btree_value
  o_is_old_large_value :: bool
  o_large_buflock :: "nat option"
  o_buffer_group :: buffer_group_t

definition new_oper :: "data_provider_t \<Rightarrow> bool \<Rightarrow> btree_append_prepend_oper_t" where
  "new_oper d app =
     \<lparr>o_result = None, o_data = d, o_append = app,
      o_value = \<lparr>v_size = 0, v_large = False, v_contents = [],
                 v_ref = \<lparr>r_size = 0, r_offset = 0, r_root = 0\<rparr>\<rparr>,
      o_is_old_large_value = False, o_large_buflock = None,
      o_buffer_group = \<lparr>buffers = []\<rparr>\<rparr>"

text \<open>
  Writing through a pointer of a buffer group: into the inline array of \<open>o_value\<close>, or
  into a segment of the buffer that \<open>o_large_buflock\<close> holds. A write that leaves the
  array or the segment's block is a crash.
\<close>

definition store_bytes ::
  "config \<Rightarrow> ptr \<Rightarrow> byte list \<Rightarrow> btree_append_prepend_oper_t \<times> cache \<Rightarrow>
   crash + btree_append_prepend_oper_t \<times> cache" where
  "store_bytes c p bs st =
     (case st of (s, tx) \<Rightarrow>
        (case p of
           Value_mem k \<Rightarrow>
             (case write_at k bs (v_contents (o_value s)) of
                Inl e \<Rightarrow> Inl e
              | Inr m \<Rightarrow> Inr (s\<lparr>o_value := (o_value s)\<lparr>v_contents := m\<rparr>\<rparr>, tx))
         | Seg_mem ix k \<Rightarrow>
             (case o_large_buflock s of
                None \<Rightarrow> Inl Out_of_bounds
              | Some h \<Rightarrow>
                  if h < length tx \<and> k + length bs \<le> block_size c
                  then (case write_at (ix * block_size c + k) bs (lb_mem (tx ! h)) of
                          Inl e \<Rightarrow> Inl e
                        | Inr m \<Rightarrow> Inr (s, tx[h := (tx ! h)\<lparr>lb_mem := m\<rparr>]))
                  else Inl Out_of_bounds)))"

text \<open>
  Modelled from the spec: \<^verbatim>\<open>data_provider_t::get_data_into_buffers\<close> copies the bytes
  into the spans of the destination, in order. The flag is \<open>True\<close> when the call returns
  and \<open>False\<close> when it throws. A destination whose spans do not add up to the provider's
  size breaks the invariant of buffer groups, which is an assertion.
\<close>

fun copy_into ::
  "config \<Rightarrow> byte list \<Rightarrow> buffer_t list \<Rightarrow> btree_append_prepend_oper_t \<times> cache \<Rightarrow>
   crash + btree_append_prepend_oper_t \<times> cache" where
  "copy_into c bs [] st = Inr st"
| "copy_into c bs (b # bg) st =
     (case store_bytes c (data_b b) (take (size_b b) bs) st of
        Inl e \<Rightarrow> Inl e
      | Inr st' \<Rightarrow> copy_into c (drop (size_b b) bs) bg st')"

definition get_data_into_buffers ::
  "config \<Rightarrow> data_provider_t \<Rightarrow> buffer_group_t \<Rightarrow> btree_append_prepend_oper_t \<times> cache \<Rightarrow>
   crash + bool \<times> btree_append_prepend_oper_t \<times> cache" where
  "get_data_into_buffers c d dest st =
     (if get_size_bg dest \<noteq> get_size d then Inl Assertion_failed
      else case copy_into c (delivered d) (buffers dest) st of
             Inl e \<Rightarrow> Inl e
           | Inr st' \<Rightarrow> Inr (dp_fail d = None, st'))"

text \<open>
  Lines 84 to 94, the loop over the segments the new bytes go to. \<open>fill_size\<close> is a
  \<^verbatim>\<open>uint32_t\<close>; \<open>seg_pos\<close>, \<open>seg_len\<close> and \<open>seg_bytes_to_fill\<close> are \<^verbatim>\<open>uint16_t\<close>.
\<close>

function fill_loop ::
  "config \<Rightarrow> large_buf_ref \<Rightarrow> nat \<Rightarrow> nat \<Rightarrow> nat \<Rightarrow> buffer_group_t \<Rightarrow> crash + buffer_group_t" where
  "fill_loop c r fill_size ix seg_pos g =
     (if fill_size > 0
      then (case get_segment_write c r ix of
              Inl e \<Rightarrow> Inl e
            | Inr (seg, seg_len) \<Rightarrow>
                if seg_len < seg_pos then Inl Assertion_failed
                else let seg_bytes_to_fill =
                           min ((seg_len - seg_pos) mod 2 ^ 32) fill_size mod 2 ^ 16
                     in fill_loop c r (fill_size - seg_bytes_to_fill) (ix + 1) 0
                          (add_buffer seg_bytes_to_fill (ptr_add seg seg_pos) g))
      else Inr g)"
  by pat_completeness auto
termination
proof (relation "measure (\<lambda>(c, r, fill_size, ix, seg_pos, g). num_segs c r - ix)")
  show "wf (measure (\<lambda>(c, r, fill_size, ix, seg_pos, g). num_segs c r - ix))"
    by simp
next
  fix c r fill_size ix seg_pos g x2 seg seg_len and sbf :: nat
  assume "get_segment_write c r ix = Inr x2"
  then have "ix < num_segs c r"
    by (simp add: get_segment_write_def split: if_splits)
  then show "((c, r, fill_size - sbf, ix + 1, 0, add_buffer sbf (ptr_add seg seg_pos) g),
              c, r, fill_size, ix, seg_pos, g)
             \<in> measure (\<lambda>(c, r, fill_size, ix, seg_pos, g). num_segs c r - ix)"
    by simp
qed

declare fill_loop.simps [simp del]

text \<open>
  What a call of \<^verbatim>\<open>operate\<close> leaves behind: the value it returns, the operation
  object, the cache, \<^verbatim>\<open>*new_value\<close> and the two locks passed by reference.
\<close>

record frame =
  f_return :: bool
  f_self :: btree_append_prepend_oper_t
  f_tx :: cache
  f_new_value :: "btree_value option"
  f_old_large_buflock :: "nat option"
  f_new_large_buflock :: "nat option"

type_synonym prepared = "btree_append_prepend_oper_t \<times> cache \<times> nat option"

text \<open>Lines 41 to 49, small to small.\<close>

definition small_to_small ::
  "btree_append_prepend_oper_t \<Rightarrow> cache \<Rightarrow> btree_value \<Rightarrow> nat option \<Rightarrow> crash + prepared" where
  "small_to_small s tx old olb =
     (if is_large old then Inl Assertion_failed
      else if o_append s
      then Inr (s\<lparr>o_buffer_group :=
                    add_buffer (get_size (o_data s)) (Value_mem (value_size old))
                      (o_buffer_group s)\<rparr>, tx, olb)
      else (case memmove (get_size (o_data s)) 0 (value_size old)
                   (v_contents (o_value s)) of
              Inl e \<Rightarrow> Inl e
            | Inr m \<Rightarrow>
                Inr (s\<lparr>o_value := (o_value s)\<lparr>v_contents := m\<rparr>,
                       o_buffer_group :=
                         add_buffer (get_size (o_data s)) (Value_mem 0) (o_buffer_group s)\<rparr>,
                     tx, olb)))"

text \<open>
  Lines 52 to 57, small to large: a new buffer (the next free handle) of the new size,
  the old inline bytes copied to their place in it.
\<close>

definition small_to_large ::
  "config \<Rightarrow> btree_append_prepend_oper_t \<Rightarrow> cache \<Rightarrow> btree_value \<Rightarrow> nat option \<Rightarrow> nat \<Rightarrow>
   crash + prepared" where
  "small_to_large c s tx old olb new_size =
     (case allocate c new_size (length tx) of (r, b) \<Rightarrow>
        (case fill_at r b (if o_append s then 0 else get_size (o_data s))
                (v_contents old) (value_size old) of
           Inl e \<Rightarrow> Inl e
         | Inr b' \<Rightarrow>
             Inr (s\<lparr>o_large_buflock := Some (length tx),
                    o_value := (o_value s)\<lparr>v_ref := r\<rparr>,
                    o_is_old_large_value := False\<rparr>,
                  tx @ [b'], olb)))"

text \<open>
  Lines 58 to 74, large to large: the whole old value is copied, the old buffer changes
  hands and grows at one end; the reference it is tied to is the one in \<open>o_value\<close>.
\<close>

definition large_to_large ::
  "config \<Rightarrow> btree_append_prepend_oper_t \<Rightarrow> cache \<Rightarrow> btree_value \<Rightarrow> nat option \<Rightarrow>
   crash + prepared" where
  "large_to_large c s tx old olb =
     (case olb of
        None \<Rightarrow> Inl Assertion_failed
      | Some h \<Rightarrow>
          if h < length tx
          then (case (if o_append s
                      then lb_append c (v_ref old) (tx ! h) (get_size (o_data s))
                      else lb_prepend c (v_ref old) (tx ! h) (get_size (o_data s))) of
                  (r', b', refsize_adjustment) \<Rightarrow>
                    Inr (s\<lparr>o_value := old\<lparr>v_ref := r',
                                           v_size := nat (int (v_size old) + refsize_adjustment)\<rparr>,
                           o_large_buflock := Some h,
                           o_is_old_large_value := True\<rparr>,
                         tx[h := b'], o_large_buflock s))
          else Inl Out_of_bounds)"

text \<open>
  Lines 39 to 95: where the data is going to go. \<open>fill_size\<close> and \<open>start_pos\<close> are
  \<^verbatim>\<open>uint32_t\<close>, \<open>seg_pos\<close> is a \<^verbatim>\<open>uint16_t\<close>.
\<close>

definition prepare ::
  "config \<Rightarrow> btree_append_prepend_oper_t \<Rightarrow> cache \<Rightarrow> btree_value \<Rightarrow> nat option \<Rightarrow> nat \<Rightarrow>
   crash + prepared" where
  "prepare c s tx old olb new_size =
     (if new_size \<le> MAX_IN_NODE_VALUE_SIZE c then small_to_small s tx old olb
      else (case (if \<not> is_large old then small_to_large c s tx old olb new_size
                  else large_to_large c s tx old olb) of
              Inl e \<Rightarrow> Inl e
            | Inr (s', tx', olb') \<Rightarrow>
                let fill_size = get_size (o_data s') mod 2 ^ 32;
                    start_pos = (if o_append s' then value_size old else 0) mod 2 ^ 32;
                    ix = pos_to_ix c (v_ref (o_value s')) start_pos;
                    seg_pos = pos_to_seg_pos c (v_ref (o_value s')) start_pos mod 2 ^ 16
                in (case fill_loop c (v_ref (o_value s')) fill_size ix seg_pos
                           (o_buffer_group s') of
                      Inl e \<Rightarrow> Inl e
                    | Inr g \<Rightarrow> Inr (s'\<lparr>o_buffer_group := g\<rparr>, tx', olb'))))"

text \<open>Lines 103 to 126: the handler of the provider's exception.\<close>

definition rollback ::
  "config \<Rightarrow> btree_append_prepend_oper_t \<Rightarrow> cache \<Rightarrow> crash + btree_append_prepend_oper_t \<times> cache" where
  "rollback c s tx =
     (case o_large_buflock s of
        None \<Rightarrow> Inr (s, tx)
      | Some h \<Rightarrow>
          if h < length tx
          then if o_is_old_large_value s
               then (case (if o_append s
                           then lb_unappend c (v_ref (o_value s)) (tx ! h) (get_size (o_data s))
                           else lb_unprepend c (v_ref (o_value s)) (tx ! h) (get_size (o_data s))) of
                       Inl e \<Rightarrow> Inl e
                     | Inr (r', b', refsize_adjustment) \<Rightarrow>
                         Inr (s\<lparr>o_value := (o_value s)\<lparr>v_ref := r',
                                   v_size := nat (int (v_size (o_value s)) + refsize_adjustment)\<rparr>\<rparr>,
                              tx[h := b']))
               else Inr (s\<lparr>o_large_buflock := None\<rparr>, tx[h := mark_deleted (tx ! h)])
          else Inl Out_of_bounds)"

text \<open>Lines 97 to 137: the data request, and what follows its success or failure.\<close>

definition dispatch ::
  "config \<Rightarrow> btree_append_prepend_oper_t \<Rightarrow> cache \<Rightarrow> nat option \<Rightarrow> nat option \<Rightarrow> crash + frame" where
  "dispatch c s tx olb nlb =
     (case get_data_into_buffers c (o_data s) (o_buffer_group s)
             (s\<lparr>o_result := Some apr_success\<rparr>, tx) of
        Inl e \<Rightarrow> Inl e
      | Inr (returned, s', tx') \<Rightarrow>
          if returned
          then Inr \<lparr>f_return = True, f_self = s'\<lparr>o_large_buflock := nlb\<rparr>, f_tx = tx',
                    f_new_value = Some (o_value s'), f_old_large_buflock = olb,
                    f_new_large_buflock = o_large_buflock s'\<rparr>
          else (case rollback c s' tx' of
                  Inl e \<Rightarrow> Inl e
                | Inr (s'', tx'') \<Rightarrow>
                    Inr \<lparr>f_return = False,
                         f_self = s''\<lparr>o_result := Some apr_data_provider_failed\<rparr>,
                         f_tx = tx'', f_new_value = None, f_old_large_buflock = olb,
                         f_new_large_buflock = nlb\<rparr>))"

text \<open>
  \<^verbatim>\<open>operate\<close>, lines 11 to 138. \<open>new_size\<close> is a \<^verbatim>\<open>size_t\<close>, so the sum wraps at
  \<open>2 ^ 64\<close>.
\<close>

definition operate ::
  "config \<Rightarrow> btree_append_prepend_oper_t \<Rightarrow> cache \<Rightarrow> btree_value option \<Rightarrow> nat option \<Rightarrow>
   nat option \<Rightarrow> crash + frame" where
  "operate c self tx old_value old_large_buflock new_large_buflock =
     (case old_value of
        None \<Rightarrow>
          Inr \<lparr>f_return = False, f_self = self\<lparr>o_result := Some apr_not_found\<rparr>, f_tx = tx,
               f_new_value = None, f_old_large_buflock = old_large_buflock,
               f_new_large_buflock = new_large_buflock\<rparr>
      | Some old \<Rightarrow>
          let new_size = (value_size old + get_size (o_data self)) mod 2 ^ 64
          in if new_size > MAX_VALUE_SIZE c
             then Inr \<lparr>f_return = False, f_self = self\<lparr>o_result := Some apr_too_large\<rparr>,
                       f_tx = tx, f_new_value = None,
                       f_old_large_buflock = old_large_buflock,
                       f_new_large_buflock = new_large_buflock\<rparr>
             else let s1 = self\<lparr>o_value := valuecpy c old\<rparr>;
                      s2 = (if \<not> is_large old
                            then s1\<lparr>o_value := set_value_size c new_size (o_value s1)\<rparr>
                            else s1)
                  in (case prepare c s2 tx old old_large_buflock new_size of
                        Inl e \<Rightarrow> Inl e
                      | Inr (s3, tx3, olb) \<Rightarrow> dispatch c s3 tx3 olb new_large_buflock))"

text \<open>
  Modelled from the spec: \<^verbatim>\<open>co_acquire_large_value_rhs\<close> and
  \<^verbatim>\<open>co_acquire_large_value_lhs\<close> (\<^verbatim>\<open>buffer_cache/co_functions.hpp\<close>, not among the
  sources), the two forms of the collaborator's
  \<^verbatim>\<open>acquire_large_buffer(reference, lock_mode, end_hint)\<close>: a request for a large buffer
  with a lock mode and at an end, the right-hand side being the tail and the left-hand
  side the head.
\<close>

datatype access_t = rwi_read | rwi_write

datatype end_hint = HEAD | TAIL

record acquisition =
  lock_mode :: access_t
  acquired_end :: end_hint

definition co_acquire_large_value_rhs :: "access_t \<Rightarrow> acquisition" where
  "co_acquire_large_value_rhs mode = \<lparr>lock_mode = mode, acquired_end = TAIL\<rparr>"

definition co_acquire_large_value_lhs :: "access_t \<Rightarrow> acquisition" where
  "co_acquire_large_value_lhs mode = \<lparr>lock_mode = mode, acquired_end = HEAD\<rparr>"


text \<open>Lines 140 to 146.\<close>

definition actually_acquire_large_value :: "btree_append_prepend_oper_t \<Rightarrow> acquisition" where
  "actually_acquire_large_value self =
     (if o_append self then co_acquire_large_value_rhs rwi_write
      else co_acquire_large_value_lhs rwi_write)"

text \<open>The lock the caller holds on the old value's buffer when it calls \<^verbatim>\<open>operate\<close>.\<close>

definition lock_of :: "btree_value \<Rightarrow> nat option" where
  "lock_of v = (if is_large v then Some (r_root (v_ref v)) else None)"

text \<open>
  Modelled from the spec: \<^verbatim>\<open>run_btree_modify_oper\<close>, the generic modify protocol, whose
  sources are not at hand. It loads the value of the key, acquires its large buffer if
  it has one, through \<^verbatim>\<open>actually_acquire_large_value\<close> of the operation, calls
  \<^verbatim>\<open>operate\<close>, and installs the new value when \<^verbatim>\<open>operate\<close> returns true; otherwise the
  key keeps its value. \<open>acquired\<close> is the list of the requests for large buffers that the
  slice's cache has received.
\<close>

record btree_slice_t =
  kv :: "string \<Rightarrow> btree_value option"
  slice_cache :: cache
  acquired :: "acquisition list"

definition acquire_old_large_value ::
  "btree_append_prepend_oper_t \<Rightarrow> btree_value option \<Rightarrow> acquisition list \<times> nat option" where
  "acquire_old_large_value oper old_value =
     (case old_value of
        None \<Rightarrow> ([], None)
      | Some v \<Rightarrow>
          if is_large v then ([actually_acquire_large_value oper], Some (r_root (v_ref v)))
          else ([], None))"

definition run_btree_modify_oper ::
  "config \<Rightarrow> btree_append_prepend_oper_t \<Rightarrow> btree_slice_t \<Rightarrow> string \<Rightarrow>
   crash + btree_append_prepend_oper_t \<times> btree_slice_t" where
  "run_btree_modify_oper c oper sl key =
     (let old_value = kv sl key;
          (requests, old_large_buflock) = acquire_old_large_value oper old_value;
          sl1 = sl\<lparr>acquired := acquired sl @ requests\<rparr>
      in case operate c oper (slice_cache sl1) old_value old_large_buflock None of
           Inl e \<Rightarrow> Inl e
         | Inr f \<Rightarrow>
             Inr (f_self f,
                  if f_return f
                  then sl1\<lparr>kv := (kv sl1)(key := f_new_value f), slice_cache := f_tx f\<rparr>
                  else sl1\<lparr>slice_cache := f_tx f\<rparr>))"

text \<open>Lines 162 to 166. The result is \<open>None\<close> if \<open>result\<close> was never assigned.\<close>

definition btree_append_prepend ::
  "config \<Rightarrow> string \<Rightarrow> btree_slice_t \<Rightarrow> data_provider_t \<Rightarrow> bool \<Rightarrow>
   crash + append_prepend_result_t option \<times> btree_slice_t" where
  "btree_append_prepend c key sl d app =
     (case run_btree_modify_oper c (new_oper d app) sl key of
        Inl e \<Rightarrow> Inl e
      | Inr (oper, sl') \<Rightarrow> Inr (o_result oper, sl'))"

subsection \<open>Providers of stored values (\<^verbatim>\<open>btree_data_provider.cc\<close>)\<close>

text \<open>
  The small provider owns a vector with a copy of the value's bytes and, once asked, a
  group with one span over that vector. The large provider owns a copy of the
  reference; reading through it needs the collaborator's \<^verbatim>\<open>co_acquire_large_buf\<close> and
  \<^verbatim>\<open>bufs_at\<close>, so of the large provider only the constructor and the size are here.
\<close>

record small_value_data_provider_t =
  value_sp :: "byte list"
  buffers_sp :: "const_buffer_group_t option"

record large_value_data_provider_t =
  lb_ref_lp :: large_buf_ref

text \<open>Lines 5 to 12: the constructor reads \<open>value_size\<close> bytes from \<open>value()\<close>.\<close>

definition new_small_value_data_provider ::
  "btree_value \<Rightarrow> crash + small_value_data_provider_t" where
  "new_small_value_data_provider v =
     (if is_large v then Inl Assertion_failed
      else case read_at 0 (value_size v) (v_contents v) of
             Inl e \<Rightarrow> Inl e
           | Inr bs \<Rightarrow> Inr \<lparr>value_sp = bs, buffers_sp = None\<rparr>)"

text \<open>Lines 14 to 16.\<close>

definition get_size_sp :: "small_value_data_provider_t \<Rightarrow> nat" where
  "get_size_sp p = length (value_sp p)"

text \<open>Lines 18 to 24.\<close>

definition get_data_as_buffers_sp ::
  "small_value_data_provider_t \<Rightarrow> crash + small_value_data_provider_t \<times> const_buffer_group_t" where
  "get_data_as_buffers_sp p =
     (case buffers_sp p of
        Some g \<Rightarrow> Inl Assertion_failed
      | None \<Rightarrow>
          let g = add_cbuffer (get_size_sp p) 0 \<lparr>cbuffers = []\<rparr>
          in Inr (p\<lparr>buffers_sp := Some g\<rparr>, g))"

text \<open>The bytes the spans of a group of the small provider point to.\<close>

definition bytes_sp :: "small_value_data_provider_t \<Rightarrow> const_buffer_group_t \<Rightarrow> byte list" where
  "bytes_sp p g =
     concat (map (\<lambda>b. take (size_cb b) (drop (data_cb b) (value_sp p))) (cbuffers g))"

text \<open>Lines 26 to 33: the constructor copies the reference, whose size is the provider's.\<close>

definition new_large_value_data_provider :: "btree_value \<Rightarrow> large_value_data_provider_t" where
  "new_large_value_data_provider v = \<lparr>lb_ref_lp = v_ref v\<rparr>"

definition get_size_lp :: "large_value_data_provider_t \<Rightarrow> nat" where
  "get_size_lp p = r_size (lb_ref_lp p)"

text \<open>Lines 49 to 56: the factory; the two subclasses are the two constructors.\<close>

datatype value_data_provider_t =
  Small_provider small_value_data_provider_t
| Large_provider large_value_data_provider_t

definition create :: "btree_value \<Rightarrow> crash + value_data_provider_t" where
  "create v =
     (if is_large v then Inr (Large_provider (new_large_value_data_provider v))
      else case new_small_value_data_provider v of
             Inl e \<Rightarrow> Inl e
           | Inr p \<Rightarrow> Inr (Small_provider p))"

fun get_size_vp :: "value_data_provider_t \<Rightarrow> nat" where
  "get_size_vp (Small_provider p) = get_size_sp p"
| "get_size_vp (Large_provider p) = get_size_lp p"

subsection \<open>Well-formed inputs\<close>

text \<open>
  The constants: segments are not empty and their length fits the \<^verbatim>\<open>uint16_t\<close> the
  loop keeps it in, the inline threshold is strictly below the maximum, and the
  maximum fits the \<^verbatim>\<open>uint32_t\<close> the loop counts in.
\<close>

definition cfg_ok :: "config \<Rightarrow> bool" where
  "cfg_ok c \<longleftrightarrow>
     0 < block_size c \<and> block_size c < 2 ^ 16 \<and>
     MAX_IN_NODE_VALUE_SIZE c < MAX_VALUE_SIZE c \<and> MAX_VALUE_SIZE c < 2 ^ 32"

text \<open>
  A stored value obeys the representation invariant of the spec: a small value has at
  most \<open>MAX_IN_NODE_VALUE_SIZE\<close> bytes, all of them present; a large value has more, at
  most \<open>MAX_VALUE_SIZE\<close>, its origin lies in the first segment, and its buffer is in the
  cache, not deleted, and made of exactly the segments its reference spans.
\<close>

definition value_ok :: "config \<Rightarrow> cache \<Rightarrow> btree_value \<Rightarrow> bool" where
  "value_ok c tx v \<longleftrightarrow>
     (if is_large v
      then MAX_IN_NODE_VALUE_SIZE c < r_size (v_ref v) \<and>
           r_size (v_ref v) \<le> MAX_VALUE_SIZE c \<and>
           r_offset (v_ref v) < block_size c \<and>
           r_root (v_ref v) < length tx \<and>
           \<not> lb_deleted (tx ! r_root (v_ref v)) \<and>
           length (lb_mem (tx ! r_root (v_ref v))) = num_segs c (v_ref v) * block_size c
      else v_size v \<le> MAX_IN_NODE_VALUE_SIZE c \<and> v_size v \<le> length (v_contents v))"

text \<open>
  A provider's size fits the \<^verbatim>\<open>ssize_t\<close> that the size of a span is kept in
  (\<^verbatim>\<open>buffer_t::size\<close>, line 12 of \<^verbatim>\<open>data_provider.hpp\<close>).
\<close>

definition provider_ok :: "data_provider_t \<Rightarrow> bool" where
  "provider_ok d \<longleftrightarrow> get_size d < 2 ^ 63"

subsection \<open>Spans and segments\<close>

text \<open>
  The spans of the bytes from address \<open>a\<close> to \<open>a + n\<close> of a buffer with segments of
  \<open>B\<close> bytes: one span for each segment the range touches, the first and the last
  possibly covering a part of their segment only.
\<close>

function seg_spans :: "nat \<Rightarrow> nat \<Rightarrow> nat \<Rightarrow> buffer_t list" where
  "seg_spans B a n =
     (if n = 0 \<or> B = 0 then []
      else \<lparr>size_b = min (B - a mod B) n, data_b = Seg_mem (a div B) (a mod B)\<rparr> #
           seg_spans B (a + min (B - a mod B) n) (n - min (B - a mod B) n))"
  by pat_completeness auto
termination
  by (relation "measure (\<lambda>(B, a, n). n)") (auto simp: min_def)

declare seg_spans.simps [simp del]

text \<open>
  The addresses a span covers in the segments laid end to end, the segment it lies in,
  and whether it is a non-empty span inside one segment. Byte \<open>pos\<close> of a value with
  reference \<open>r\<close> has address \<open>r_offset r + pos\<close>.
\<close>

definition span_addrs :: "config \<Rightarrow> buffer_t \<Rightarrow> nat list" where
  "span_addrs c b =
     (case data_b b of
        Value_mem k \<Rightarrow> []
      | Seg_mem ix k \<Rightarrow> [ix * block_size c + k ..< ix * block_size c + k + size_b b])"

definition span_seg :: "buffer_t \<Rightarrow> nat option" where
  "span_seg b = (case data_b b of Value_mem k \<Rightarrow> None | Seg_mem ix k \<Rightarrow> Some ix)"

definition in_one_segment :: "config \<Rightarrow> buffer_t \<Rightarrow> bool" where
  "in_one_segment c b \<longleftrightarrow>
     (case data_b b of
        Value_mem k \<Rightarrow> False
      | Seg_mem ix k \<Rightarrow> 0 < size_b b \<and> k + size_b b \<le> block_size c)"

subsection \<open>A small configuration, some values and two runs\<close>

definition cfg0 :: config where
  "cfg0 = \<lparr>MAX_VALUE_SIZE = 100, MAX_IN_NODE_VALUE_SIZE = 8, block_size = 4,
           refsize = (\<lambda>s off. 16)\<rparr>"

definition v_small :: btree_value where
  "v_small = \<lparr>v_size = 3, v_large = False, v_contents = [1, 2, 3],
              v_ref = \<lparr>r_size = 0, r_offset = 0, r_root = 0\<rparr>\<rparr>"

definition v_big :: btree_value where
  "v_big = \<lparr>v_size = 16, v_large = True, v_contents = [],
            v_ref = \<lparr>r_size = 9, r_offset = 2, r_root = 0\<rparr>\<rparr>"

definition tx_big :: cache where
  "tx_big = [\<lparr>lb_mem = [0, 0, 1, 2, 3, 4, 5, 6, 7, 8, 9, 0], lb_deleted = False\<rparr>]"

definition dp_ok :: "byte list \<Rightarrow> data_provider_t" where
  "dp_ok bs = \<lparr>dp_bytes = bs, dp_fail = None\<rparr>"

definition dp_failing :: "byte list \<Rightarrow> nat \<Rightarrow> data_provider_t" where
  "dp_failing bs k = \<lparr>dp_bytes = bs, dp_fail = Some k\<rparr>"

text \<open>
  What two runs of \<^verbatim>\<open>operate\<close> leave behind: six bytes appended to \<open>v_big\<close>, and an
  append to \<open>v_small\<close> from a provider of size 0 that throws.
\<close>

definition frame_append_big :: frame where
  "frame_append_big =
     \<lparr>f_return = True,
      f_self =
        \<lparr>o_result = Some apr_success,
         o_data = \<lparr>dp_bytes = [21, 22, 23, 24, 25, 26], dp_fail = None\<rparr>,
         o_append = True,
         o_value = \<lparr>v_size = 16, v_large = True, v_contents = [],
                    v_ref = \<lparr>r_size = 15, r_offset = 2, r_root = 0\<rparr>\<rparr>,
         o_is_old_large_value = True, o_large_buflock = None,
         o_buffer_group =
           \<lparr>buffers = [\<lparr>size_b = 1, data_b = Seg_mem 2 3\<rparr>,
                       \<lparr>size_b = 4, data_b = Seg_mem 3 0\<rparr>,
                       \<lparr>size_b = 1, data_b = Seg_mem 4 0\<rparr>]\<rparr>\<rparr>,
      f_tx = [\<lparr>lb_mem = [0, 0, 1, 2, 3, 4, 5, 6, 7, 8, 9, 21, 22, 23, 24, 25, 26, 0, 0, 0],
               lb_deleted = False\<rparr>],
      f_new_value =
        Some \<lparr>v_size = 16, v_large = True, v_contents = [],
              v_ref = \<lparr>r_size = 15, r_offset = 2, r_root = 0\<rparr>\<rparr>,
      f_old_large_buflock = None, f_new_large_buflock = Some 0\<rparr>"

definition frame_zero_failed :: frame where
  "frame_zero_failed =
     \<lparr>f_return = False,
      f_self =
        \<lparr>o_result = Some apr_data_provider_failed,
         o_data = \<lparr>dp_bytes = [], dp_fail = Some 0\<rparr>, o_append = True,
         o_value = \<lparr>v_size = 3, v_large = False, v_contents = [1, 2, 3, 0, 0, 0, 0, 0],
                    v_ref = \<lparr>r_size = 0, r_offset = 0, r_root = 0\<rparr>\<rparr>,
         o_is_old_large_value = False, o_large_buflock = None,
         o_buffer_group = \<lparr>buffers = [\<lparr>size_b = 0, data_b = Value_mem 3\<rparr>]\<rparr>\<rparr>,
      f_tx = [], f_new_value = None, f_old_large_buflock = None,
      f_new_large_buflock = None\<rparr>"

text \<open>
  A slice that holds \<open>v_big\<close> under the key \<open>k\<close>, and what \<^verbatim>\<open>operate\<close> leaves behind
  when a provider of declared size \<open>2 ^ 64 - 1\<close> throws at once on an append to
  \<open>v_small\<close>.
\<close>

definition sl_big :: btree_slice_t where
  "sl_big = \<lparr>kv = [''k'' \<mapsto> v_big], slice_cache = tx_big, acquired = []\<rparr>"

definition frame_wrapped_failed :: frame where
  "frame_wrapped_failed =
     \<lparr>f_return = False,
      f_self =
        \<lparr>o_result = Some apr_data_provider_failed,
         o_data = \<lparr>dp_bytes = replicate (2 ^ 64 - 1) 0, dp_fail = Some 0\<rparr>, o_append = True,
         o_value = \<lparr>v_size = 2, v_large = False, v_contents = [1, 2, 3, 0, 0, 0, 0, 0],
                    v_ref = \<lparr>r_size = 0, r_offset = 0, r_root = 0\<rparr>\<rparr>,
         o_is_old_large_value = False, o_large_buflock = None,
         o_buffer_group = \<lparr>buffers = [\<lparr>size_b = 2 ^ 64 - 1, data_b = Value_mem 3\<rparr>]\<rparr>\<rparr>,
      f_tx = [], f_new_value = None, f_old_large_buflock = None,
      f_new_large_buflock = None\<rparr>"

section \<open>Auxiliary facts\<close>

lemma overwrite_length [simp]:
  "k + length bs \<le> length m \<Longrightarrow> length (overwrite k bs m) = length m"
  by (simp add: overwrite_def)

lemma overwrite_Nil [simp]: "overwrite k [] m = m"
  by (simp add: overwrite_def)

lemma overwrite_split:
  assumes "a + length bs \<le> length m"
  shows "overwrite (a + l) (drop l bs) (overwrite a (take l bs) m) = overwrite a bs m"
proof (cases "l \<le> length bs")
  case True
  then have len: "length (take l bs) = l" by simp
  have "take (a + l) (overwrite a (take l bs) m) = take a m @ take l bs"
    using assms True by (simp add: overwrite_def)
  moreover have "drop (a + l + length (drop l bs)) (overwrite a (take l bs) m)
                 = drop (a + length bs) m"
    using assms True by (simp add: overwrite_def add.commute)
  ultimately show ?thesis
    by (simp add: overwrite_def[of "a + l"] overwrite_def[of a bs])
next
  case False
  then show ?thesis by simp
qed

lemma copy_into_spans:
  assumes "o_large_buflock s = Some h" "h < length tx" "0 < block_size c"
    "length bs \<le> n" "a + n \<le> length (lb_mem (tx ! h))"
  shows "copy_into c bs (seg_spans (block_size c) a n) (s, tx)
         = Inr (s, tx[h := (tx ! h)\<lparr>lb_mem := overwrite a bs (lb_mem (tx ! h))\<rparr>])"
  using assms
proof (induction "block_size c" a n arbitrary: bs tx rule: seg_spans.induct)
  case (1 a n)
  show ?case
  proof (cases "n = 0")
    case True
    with 1 show ?thesis by (simp add: seg_spans.simps)
  next
    case False
    define l where "l = min (block_size c - a mod block_size c) n"
    define m where "m = lb_mem (tx ! h)"
    define tx1 where "tx1 = tx[h := (tx ! h)\<lparr>lb_mem := overwrite a (take l bs) m\<rparr>]"
    have B: "0 < block_size c" by fact
    have modlt: "a mod block_size c < block_size c"
      using B by simp
    have lB: "a mod block_size c + l \<le> block_size c"
      using modlt unfolding l_def by linarith
    have ln: "l \<le> n" by (simp add: l_def)
    have addr: "a div block_size c * block_size c + a mod block_size c = a"
      by simp
    have bound: "a + length (take l bs) \<le> length m"
      using "1.prems" ln by (simp add: m_def)
    have step: "store_bytes c (Seg_mem (a div block_size c) (a mod block_size c)) (take l bs) (s, tx)
                = Inr (s, tx1)"
      using "1.prems" lB bound
      by (simp add: store_bytes_def write_at_def addr tx1_def m_def min_def)
    have tx1h: "tx1 ! h = (tx ! h)\<lparr>lb_mem := overwrite a (take l bs) m\<rparr>"
      using "1.prems" by (simp add: tx1_def)
    have IH: "copy_into c (drop l bs) (seg_spans (block_size c) (a + l) (n - l)) (s, tx1)
              = Inr (s, tx1[h := (tx1 ! h)\<lparr>lb_mem := overwrite (a + l) (drop l bs) (lb_mem (tx1 ! h))\<rparr>])"
      unfolding l_def
    proof (rule "1.hyps")
      show "\<not> (n = 0 \<or> block_size c = 0)" using False B by simp
      show "o_large_buflock s = Some h" by fact
      show "h < length tx1" using "1.prems" by (simp add: tx1_def)
      show "0 < block_size c" by fact
      show "length (drop (min (block_size c - a mod block_size c) n) bs)
            \<le> n - min (block_size c - a mod block_size c) n"
        using "1.prems" by simp
      show "a + min (block_size c - a mod block_size c) n + (n - min (block_size c - a mod block_size c) n)
            \<le> length (lb_mem (tx1 ! h))"
        using "1.prems" bound tx1h by (simp add: m_def l_def)
    qed
    have spans: "seg_spans (block_size c) a n
                 = \<lparr>size_b = l, data_b = Seg_mem (a div block_size c) (a mod block_size c)\<rparr> #
                   seg_spans (block_size c) (a + l) (n - l)"
      using False B by (subst seg_spans.simps) (simp add: l_def)
    have "overwrite (a + l) (drop l bs) (overwrite a (take l bs) m) = overwrite a bs m"
      using "1.prems" by (intro overwrite_split) (simp add: m_def)
    then show ?thesis
      using step IH tx1h by (simp add: spans tx1_def m_def)
  qed
qed

lemma ceil_div_gt:
  fixes B :: nat
  assumes "0 < B" "k * B < X"
  shows "k < (X + B - 1) div B"
proof -
  have "(k + 1) * B \<le> X + B - 1" using assms by simp
  then have "k + 1 \<le> (X + B - 1) div B"
    using assms(1) by (simp only: less_eq_div_iff_mult_less_eq)
  then show ?thesis by simp
qed

lemma ceil_div_ge:
  fixes B :: nat
  assumes "0 < B"
  shows "X \<le> (X + B - 1) div B * B"
proof -
  have "(X + B - 1) mod B < B" using assms by simp
  moreover have "(X + B - 1) div B * B + (X + B - 1) mod B = X + B - 1"
    by simp
  ultimately show ?thesis by linarith
qed

lemma fill_loop_spans:
  assumes "0 < block_size c" "block_size c < 2 ^ 16"
    and "n = 0 \<or> (a = ix * block_size c + (if ix = 0 then r_offset r else 0) + seg_pos \<and>
                    a < (ix + 1) * block_size c \<and> a + n \<le> r_offset r + r_size r)"
  shows "fill_loop c r n ix seg_pos g
         = Inr (g\<lparr>buffers := buffers g @ seg_spans (block_size c) a n\<rparr>)"
  using assms
proof (induction "block_size c" a n arbitrary: ix seg_pos g rule: seg_spans.induct)
  case (1 a n)
  show ?case
  proof (cases "n = 0")
    case True
    then show ?thesis by (simp add: seg_spans.simps fill_loop.simps)
  next
    case False
    define B where "B = block_size c"
    define l where "l = min (B - a mod B) n"
    define lo where "lo = (if ix = 0 then r_offset r else ix * B)"
    define hi where "hi = min ((ix + 1) * B) (r_offset r + r_size r)"
    have B: "0 < B" "B < 2 ^ 16" using "1.prems" by (simp_all add: B_def)
    have a: "a = ix * B + (if ix = 0 then r_offset r else 0) + seg_pos"
      and aB: "a < (ix + 1) * B" and an: "a + n \<le> r_offset r + r_size r"
      using "1.prems" False by (simp_all add: B_def)
    have ixa: "ix * B \<le> a" using a by simp
    have adiv: "a div B = ix"
      using ixa aB B by (metis add.commute div_nat_eqI mult.commute plus_1_eq_Suc)
    have amod: "a mod B = a - ix * B"
      using adiv by (metis minus_mult_div_eq_mod mult.commute)
    have alo: "a = lo + seg_pos" using a by (simp add: lo_def)
    have ahi: "a < hi" using aB an False by (simp add: hi_def)
    have segs: "ix < num_segs c r"
    proof -
      have "ix * B < r_offset r + r_size r" using ixa an False by simp
      then have "ix < (r_offset r + r_size r + B - 1) div B"
        using B(1) by (rule ceil_div_gt[rotated])
      then show ?thesis by (simp add: num_segs_def B_def)
    qed
    have hiB: "hi - lo \<le> B" using alo ixa by (auto simp: hi_def lo_def min_def)
    have seg: "get_segment_write c r ix = Inr (Seg_mem ix (lo - ix * B), hi - lo)"
      using segs hiB B by (simp add: get_segment_write_def Let_def B_def lo_def hi_def)
    have len: "hi - lo - seg_pos = hi - a" using alo by simp
    have lhi: "min (hi - a) n = l"
      using an ahi aB amod ixa by (auto simp: l_def hi_def min_def)
    have lle: "l \<le> B" unfolding l_def by linarith
    have sbf: "min ((hi - lo - seg_pos) mod 2 ^ 32) n mod 2 ^ 16 = l"
    proof -
      have "hi - a < 2 ^ 32" using hiB B alo by simp
      then have "(hi - lo - seg_pos) mod 2 ^ 32 = hi - a"
        unfolding len by (rule mod_less)
      moreover have "l mod 2 ^ 16 = l" using lle B by simp
      ultimately show ?thesis by (simp only: lhi)
    qed
    have ptr: "ptr_add (Seg_mem ix (lo - ix * B)) seg_pos = Seg_mem (a div B) (a mod B)"
      using alo amod adiv ixa by (auto simp: lo_def)
    have lpos: "0 < l" using False B by (simp add: l_def min_def)
    have IH: "fill_loop c r (n - l) (ix + 1) 0 g'
              = Inr (g'\<lparr>buffers := buffers g' @ seg_spans B (a + l) (n - l)\<rparr>)" for g'
      unfolding l_def B_def
    proof (rule "1.hyps")
      show "\<not> (n = 0 \<or> block_size c = 0)" using False B by (simp add: B_def)
      show "0 < block_size c" "block_size c < 2 ^ 16" using B by (simp_all add: B_def)
      show "n - min (block_size c - a mod block_size c) n = 0 \<or>
            a + min (block_size c - a mod block_size c) n
              = (ix + 1) * block_size c + (if ix + 1 = 0 then r_offset r else 0) + 0 \<and>
            a + min (block_size c - a mod block_size c) n < (ix + 1 + 1) * block_size c \<and>
            a + min (block_size c - a mod block_size c) n
              + (n - min (block_size c - a mod block_size c) n) \<le> r_offset r + r_size r"
        using an amod ixa aB B by (auto simp: B_def min_def)
    qed
    have spans: "seg_spans B a n
                 = \<lparr>size_b = l, data_b = Seg_mem (a div B) (a mod B)\<rparr> # seg_spans B (a + l) (n - l)"
      using False B by (subst seg_spans.simps) (simp add: l_def)
    have nolt: "\<not> hi - lo < seg_pos" using ahi alo by simp
    have "fill_loop c r n ix seg_pos g
          = fill_loop c r (n - l) (ix + 1) 0 (add_buffer l (Seg_mem (a div B) (a mod B)) g)"
      using False seg nolt sbf ptr
      by (subst fill_loop.simps) (simp add: B_def[symmetric] del: ptr_add.simps)
    then show ?thesis
      using IH[of "add_buffer l (Seg_mem (a div B) (a mod B)) g"]
      by (simp add: spans add_buffer_def B_def[symmetric])
  qed
qed

lemma fold_sizes: "fold (\<lambda>b s. s + size_b b) xs acc = acc + sum_list (map size_b xs)"
  by (induction xs arbitrary: acc) simp_all

lemma get_size_bg_sum: "get_size_bg g = sum_list (map size_b (buffers g))"
  by (simp add: get_size_bg_def fold_sizes)

lemma sum_seg_spans: "0 < B \<Longrightarrow> sum_list (map size_b (seg_spans B a n)) = n"
proof (induction B a n rule: seg_spans.induct)
  case (1 B a n)
  show ?case
  proof (cases "n = 0")
    case True
    then show ?thesis by (simp add: seg_spans.simps)
  next
    case False
    then show ?thesis
      using 1 by (subst seg_spans.simps) (simp add: min_def)
  qed
qed

lemma length_delivered: "length (delivered d) \<le> get_size d"
  by (simp add: delivered_def get_size_def split: option.splits)

lemma delivered_ok: "dp_fail d = None \<Longrightarrow> delivered d = dp_bytes d"
  by (simp add: delivered_def)

lemma fill_inline:
  assumes "buffers g = [\<lparr>size_b = get_size d, data_b = Value_mem k\<rparr>]"
    and "k + get_size d \<le> length (v_contents (o_value s))"
  shows "get_data_into_buffers c d g (s, tx)
         = Inr (dp_fail d = None,
                s\<lparr>o_value := (o_value s)\<lparr>v_contents :=
                     overwrite k (delivered d) (v_contents (o_value s))\<rparr>\<rparr>, tx)"
proof -
  have "take (get_size d) (delivered d) = delivered d"
    using length_delivered[of d] by simp
  moreover have "k + length (delivered d) \<le> length (v_contents (o_value s))"
    using assms(2) length_delivered[of d] by simp
  ultimately show ?thesis
    using assms(1)
    by (simp add: get_data_into_buffers_def get_size_bg_sum store_bytes_def write_at_def)
qed

lemma fill_segments:
  assumes "buffers g = seg_spans (block_size c) a (get_size d)"
    and "o_large_buflock s = Some h" "h < length tx" "0 < block_size c"
    and "a + get_size d \<le> length (lb_mem (tx ! h))"
  shows "get_data_into_buffers c d g (s, tx)
         = Inr (dp_fail d = None,
                s, tx[h := (tx ! h)\<lparr>lb_mem := overwrite a (delivered d) (lb_mem (tx ! h))\<rparr>])"
  using assms length_delivered[of d]
  by (simp add: get_data_into_buffers_def get_size_bg_sum sum_seg_spans copy_into_spans)

lemma small_small_case:
  assumes c: "cfg_ok c" and small: "\<not> is_large old" and ok: "value_ok c tx old"
    and fit: "value_size old + get_size d \<le> MAX_IN_NODE_VALUE_SIZE c"
  shows "\<exists>f. operate c (new_oper d app) tx (Some old) olb nlb = Inr f \<and>
             f_return f = (dp_fail d = None) \<and>
             o_result (f_self f)
               = Some (if dp_fail d = None then apr_success else apr_data_provider_failed) \<and>
             f_tx f = tx \<and>
             buffers (o_buffer_group (f_self f))
               = [\<lparr>size_b = get_size d, data_b = Value_mem (if app then value_size old else 0)\<rparr>] \<and>
             (dp_fail d \<noteq> None \<longrightarrow> f_new_value f = None) \<and>
             (dp_fail d = None \<longrightarrow>
                (\<exists>v. f_new_value f = Some v \<and> \<not> is_large v \<and>
                     value_size v = value_size old + get_size d \<and>
                     value_ok c (f_tx f) v \<and>
                     value_bytes (f_tx f) v
                       = (if app then value_bytes tx old @ dp_bytes d
                          else dp_bytes d @ value_bytes tx old) \<and>
                     f_new_large_buflock f = None))"
proof -
  define vs where "vs = v_size old"
  define n where "n = get_size d"
  define cap where "cap = MAX_IN_NODE_VALUE_SIZE c"
  define ob where "ob = take vs (v_contents old)"
  define C0 where "C0 = ob @ replicate (cap - vs) 0"
  define C1 where "C1 = (if app then C0 else overwrite n ob C0)"
  define k where "k = (if app then vs else 0)"
  define s2 where "s2 = (new_oper d app)\<lparr>o_value := old\<lparr>v_contents := C0, v_large := False, v_size := vs + n\<rparr>\<rparr>"
  define s3 where "s3 = s2\<lparr>o_value := (o_value s2)\<lparr>v_contents := C1\<rparr>,
                          o_buffer_group := \<lparr>buffers = [\<lparr>size_b = n, data_b = Value_mem k\<rparr>]\<rparr>\<rparr>"
  have vs: "vs \<le> length (v_contents old)" "vs + n \<le> cap" "\<not> v_large old"
    and mx: "cap < MAX_VALUE_SIZE c" "MAX_VALUE_SIZE c < 2 ^ 32"
    and vsz: "value_size old = vs"
    using c small ok fit
    by (simp_all add: value_ok_def cfg_ok_def vs_def n_def cap_def value_size_def is_large_def)
  have nowrap: "(vs + n) mod 2 ^ 64 = vs + n" using vs mx by simp
  have obl: "length ob = vs" using vs by (simp add: ob_def)
  have C0l: "length C0 = cap" using vs obl by (simp add: C0_def)
  have C1l: "length C1 = cap" using vs obl C0l by (simp add: C1_def)
  have ob0: "take vs C0 = ob" using obl by (simp add: C0_def)
  have obs: "value_bytes tx old = ob" using small by (simp add: value_bytes_def ob_def vs_def)
  have prep: "prepare c s2 tx old olb (vs + n) = Inr (s3, tx, olb)"
    using vs small C0l ob0 vsz obl
    by (cases app)
       (simp_all add: prepare_def small_to_small_def s2_def s3_def new_oper_def C1_def k_def
          cap_def[symmetric] n_def[symmetric] memmove_def read_at_def write_at_def add_buffer_def)
  have fill: "get_data_into_buffers c d (o_buffer_group s3) (s3\<lparr>o_result := Some apr_success\<rparr>, tx)
              = Inr (dp_fail d = None,
                     s3\<lparr>o_result := Some apr_success,
                        o_value := (o_value s3)\<lparr>v_contents := overwrite k (delivered d) C1\<rparr>\<rparr>, tx)"
  proof -
    have "k + get_size d \<le> length (v_contents (o_value (s3\<lparr>o_result := Some apr_success\<rparr>)))"
      using vs C1l by (simp add: s3_def k_def n_def)
    moreover have "buffers (o_buffer_group s3) = [\<lparr>size_b = get_size d, data_b = Value_mem k\<rparr>]"
      by (simp add: s3_def n_def)
    ultimately show ?thesis
      by (simp add: fill_inline s3_def)
  qed
  have bytes: "take (vs + n) (overwrite k (dp_bytes d) C1)
               = (if app then ob @ dp_bytes d else dp_bytes d @ ob)"
    using vs obl C0l by (simp add: C1_def k_def overwrite_def C0_def n_def get_size_def)
  have op: "operate c (new_oper d app) tx (Some old) olb nlb = dispatch c s3 tx olb nlb"
    using vs mx small nowrap prep
    by (simp add: operate_def Let_def vsz n_def[symmetric] valuecpy_def set_value_size_def
        new_oper_def s2_def cap_def[symmetric] vs_def[symmetric] ob_def[symmetric] C0_def[symmetric])
  have ovl: "length (overwrite vs (dp_bytes d) C1) = cap" "length (overwrite 0 (dp_bytes d) C1) = cap"
    using vs C1l by (simp_all add: n_def get_size_def)
  show ?thesis
    unfolding op
    using fill bytes vsz obs ovl vs
    by (simp add: dispatch_def rollback_def s3_def s2_def new_oper_def is_large_def
        value_size_def value_bytes_def delivered_ok n_def k_def value_ok_def
        cap_def[symmetric])
qed

lemma ceil_div_lt:
  fixes B :: nat
  assumes "0 < B"
  shows "(X + B - 1) div B * B < X + B"
proof -
  have "(X + B - 1) div B * B \<le> X + B - 1" by simp
  then show ?thesis using assms by linarith
qed

lemma num_segs_ge: "0 < block_size c \<Longrightarrow> r_offset r + r_size r \<le> num_segs c r * block_size c"
  unfolding num_segs_def by (rule ceil_div_ge)

lemma start_addr:
  assumes "0 < block_size c" "block_size c < 2 ^ 16"
  shows "r_offset r + pos
         = pos_to_ix c r pos * block_size c + (if pos_to_ix c r pos = 0 then r_offset r else 0)
           + pos_to_seg_pos c r pos mod 2 ^ 16
         \<and> r_offset r + pos < (pos_to_ix c r pos + 1) * block_size c"
proof (cases "pos + r_offset r < block_size c")
  case True
  then have "pos mod 2 ^ 16 = pos" using assms by simp
  then show ?thesis
    using True by (simp add: pos_to_ix_def pos_to_seg_pos_def)
next
  case False
  define B where "B = block_size c"
  define a where "a = pos + r_offset r"
  have B: "0 < B" "B < 2 ^ 16" using assms by (simp_all add: B_def)
  have "a mod B < B" using B by simp
  then have "a mod B < 2 ^ 16" using B by linarith
  then have m: "(a mod B) mod 2 ^ 16 = a mod B" by (rule mod_less)
  have ix: "a div B \<noteq> 0" using False B by (simp add: a_def B_def div_eq_0_iff)
  have e: "a = a div B * B + a mod B" by simp
  have lt: "a < (a div B + 1) * B"
    using B by (metis Suc_eq_plus1 dividend_less_div_times mult.commute mult_Suc_right add.commute)
  show ?thesis
    using False ix m e lt
    by (simp add: pos_to_ix_def pos_to_seg_pos_def B_def[symmetric] a_def[symmetric] add.commute[of "r_offset r" pos])
qed

lemma fill_loop_at:
  assumes "0 < block_size c" "block_size c < 2 ^ 16" "pos + n \<le> r_size r"
  shows "fill_loop c r n (pos_to_ix c r pos) (pos_to_seg_pos c r pos mod 2 ^ 16) g
         = Inr (g\<lparr>buffers := buffers g @ seg_spans (block_size c) (r_offset r + pos) n\<rparr>)"
proof (rule fill_loop_spans)
  show "n = 0 \<or>
        r_offset r + pos
          = pos_to_ix c r pos * block_size c + (if pos_to_ix c r pos = 0 then r_offset r else 0)
            + pos_to_seg_pos c r pos mod 2 ^ 16 \<and>
        r_offset r + pos < (pos_to_ix c r pos + 1) * block_size c \<and>
        r_offset r + pos + n \<le> r_offset r + r_size r"
    using start_addr[OF assms(1,2), of r pos] assms(3) by simp
qed (use assms in simp_all)

lemma small_large_case:
  assumes c: "cfg_ok c" and small: "\<not> is_large old" and ok: "value_ok c tx old"
    and big: "MAX_IN_NODE_VALUE_SIZE c < value_size old + get_size d"
    and fit: "value_size old + get_size d \<le> MAX_VALUE_SIZE c"
  shows "\<exists>f b. operate c (new_oper d app) tx (Some old) olb nlb = Inr f \<and>
             f_return f = (dp_fail d = None) \<and>
             o_result (f_self f)
               = Some (if dp_fail d = None then apr_success else apr_data_provider_failed) \<and>
             buffers (o_buffer_group (f_self f))
               = seg_spans (block_size c) (if app then value_size old else 0) (get_size d) \<and>
             v_ref (o_value (f_self f))
               = \<lparr>r_size = value_size old + get_size d, r_offset = 0, r_root = length tx\<rparr> \<and>
             f_tx f = tx @ [b] \<and> lb_deleted b = (dp_fail d \<noteq> None) \<and>
             (dp_fail d \<noteq> None \<longrightarrow>
                f_new_value f = None \<and> o_large_buflock (f_self f) = None) \<and>
             (dp_fail d = None \<longrightarrow>
                (\<exists>v. f_new_value f = Some v \<and> v = o_value (f_self f) \<and> is_large v \<and>
                     value_size v = value_size old + get_size d \<and>
                     value_ok c (f_tx f) v \<and>
                     value_bytes (f_tx f) v
                       = (if app then value_bytes tx old @ dp_bytes d
                          else dp_bytes d @ value_bytes tx old) \<and>
                     f_new_large_buflock f = Some (length tx)))"
proof -
  define B where "B = block_size c"
  define vs where "vs = v_size old"
  define n where "n = get_size d"
  define cap where "cap = MAX_IN_NODE_VALUE_SIZE c"
  define ob where "ob = take vs (v_contents old)"
  define C0 where "C0 = ob @ replicate (cap - vs) 0"
  define r where "r = \<lparr>r_size = vs + n, r_offset = 0, r_root = length tx\<rparr>"
  define N where "N = (vs + n + B - 1) div B"
  define pos where "pos = (if app then 0 else n)"
  define start where "start = (if app then vs else 0)"
  define m0 :: "byte list" where "m0 = replicate (N * B) 0"
  define m1 where "m1 = overwrite pos ob m0"
  define m2 where "m2 = overwrite start (delivered d) m1"
  define b0 where "b0 = \<lparr>lb_mem = m0, lb_deleted = False\<rparr>"
  define s2 where "s2 = (new_oper d app)\<lparr>o_value := old\<lparr>v_contents := C0, v_large := True,
                           v_size := refsize c (vs + n) 0,
                           v_ref := (v_ref old)\<lparr>r_size := vs + n\<rparr>\<rparr>\<rparr>"
  define s3 where "s3 = s2\<lparr>o_large_buflock := Some (length tx),
                          o_value := (o_value s2)\<lparr>v_ref := r\<rparr>,
                          o_is_old_large_value := False\<rparr>"
  define s4 where "s4 = s3\<lparr>o_buffer_group := \<lparr>buffers = seg_spans B start n\<rparr>\<rparr>"
  have B: "0 < B" "B < 2 ^ 16"
    and mx: "cap < MAX_VALUE_SIZE c" "MAX_VALUE_SIZE c < 2 ^ 32"
    using c by (simp_all add: cfg_ok_def B_def cap_def)
  have vs: "vs \<le> length (v_contents old)" "vs \<le> cap" "\<not> v_large old"
    "cap < vs + n" "vs + n \<le> MAX_VALUE_SIZE c"
    and vsz: "value_size old = vs"
    using small ok big fit
    by (simp_all add: value_ok_def vs_def n_def cap_def value_size_def is_large_def)
  have nowrap: "(vs + n) mod 2 ^ 64 = vs + n" using vs mx by simp
  have n32: "n mod 2 ^ 32 = n" using vs mx by simp
  have st32: "start mod 2 ^ 32 = start" using vs mx by (simp add: start_def)
  have obl: "length ob = vs" using vs by (simp add: ob_def)
  have obs: "value_bytes tx old = ob" using small by (simp add: value_bytes_def ob_def vs_def)
  have NB: "vs + n \<le> N * B" unfolding N_def using B(1) by (rule ceil_div_ge)
  have m0l: "length m0 = N * B" by (simp add: m0_def)
  have m1l: "length m1 = N * B" using NB obl m0l by (simp add: m1_def pos_def)
  have dl: "length (delivered d) \<le> n" using length_delivered[of d] by (simp add: n_def)
  have m2l: "length m2 = N * B" using NB dl m1l vs by (simp add: m2_def start_def)
  have Nr: "num_segs c r = N" by (simp add: num_segs_def r_def N_def B_def)
  have alloc: "allocate c (vs + n) (length tx) = (r, b0)"
    using Nr by (simp add: allocate_def Let_def r_def[symmetric] b0_def m0_def B_def)
  have fa: "fill_at r b0 pos (v_contents old) vs = Inr (b0\<lparr>lb_mem := m1\<rparr>)"
    using vs NB obl m0l
    by (simp add: fill_at_def write_at_def r_def b0_def pos_def ob_def[symmetric] m1_def)
  have stl: "small_to_large c s2 tx old olb (vs + n) = Inr (s3, tx @ [b0\<lparr>lb_mem := m1\<rparr>], olb)"
    using alloc fa
    by (cases app)
       (simp_all add: small_to_large_def s2_def s3_def new_oper_def vsz n_def[symmetric] pos_def)
  have loop: "fill_loop c r n (pos_to_ix c r start) (pos_to_seg_pos c r start mod 2 ^ 16) \<lparr>buffers = []\<rparr>
              = Inr \<lparr>buffers = seg_spans B start n\<rparr>"
  proof -
    have "start + n \<le> r_size r" by (simp add: r_def start_def)
    from fill_loop_at[OF B[unfolded B_def] this, of "\<lparr>buffers = []\<rparr>"]
    show ?thesis by (simp add: r_def B_def)
  qed
  have prep: "prepare c s2 tx old olb (vs + n) = Inr (s4, tx @ [b0\<lparr>lb_mem := m1\<rparr>], olb)"
  proof -
    have "o_buffer_group s3 = \<lparr>buffers = []\<rparr>" "o_data s3 = d" "o_append s3 = app"
      "v_ref (o_value s3) = r"
      by (simp_all add: s3_def s2_def new_oper_def)
    then show ?thesis
      using vs small stl loop n32 st32
      by (cases app)
         (simp_all add: prepare_def cap_def[symmetric] Let_def n_def[symmetric] vsz
            start_def s4_def)
  qed
  have fill: "get_data_into_buffers c d (o_buffer_group s4)
                (s4\<lparr>o_result := Some apr_success\<rparr>, tx @ [b0\<lparr>lb_mem := m1\<rparr>])
              = Inr (dp_fail d = None, s4\<lparr>o_result := Some apr_success\<rparr>,
                     tx @ [b0\<lparr>lb_mem := m2\<rparr>])"
  proof -
    have "start + get_size d \<le> length (lb_mem ((tx @ [b0\<lparr>lb_mem := m1\<rparr>]) ! length tx))"
      using NB m1l vs by (simp add: start_def n_def)
    moreover have "buffers (o_buffer_group s4) = seg_spans (block_size c) start (get_size d)"
      by (simp add: s4_def B_def n_def)
    moreover have "o_large_buflock (s4\<lparr>o_result := Some apr_success\<rparr>) = Some (length tx)"
      by (simp add: s4_def s3_def)
    ultimately show ?thesis
      using B(1) by (simp add: fill_segments B_def m2_def)
  qed
  have bytes: "dp_fail d = None \<Longrightarrow> take (vs + n) m2 = (if app then ob @ dp_bytes d else dp_bytes d @ ob)"
    using vs obl m0l NB
    by (simp add: m2_def m1_def start_def pos_def overwrite_def delivered_ok n_def get_size_def)
  have op: "operate c (new_oper d app) tx (Some old) olb nlb
            = dispatch c s4 (tx @ [b0\<lparr>lb_mem := m1\<rparr>]) olb nlb"
    using vs mx small nowrap prep
    by (simp add: operate_def Let_def vsz n_def[symmetric] valuecpy_def set_value_size_def
        new_oper_def s2_def cap_def[symmetric] vs_def[symmetric] ob_def[symmetric] C0_def[symmetric])
  show ?thesis
    unfolding op
    using fill bytes vsz obs vs m2l Nr B(1)
    by (simp add: start_def dispatch_def rollback_def s4_def s3_def s2_def new_oper_def is_large_def
        value_size_def value_bytes_def lb_bytes_def n_def[symmetric] B_def[symmetric]
        mark_deleted_def b0_def r_def value_ok_def cap_def[symmetric])
qed

lemma num_segs_mono:
  "r_offset r = r_offset r' \<Longrightarrow> r_size r \<le> r_size r' \<Longrightarrow> num_segs c r \<le> num_segs c r'"
  unfolding num_segs_def by (intro div_le_mono) simp

lemma take_drop_window:
  assumes "k + n \<le> N"
  shows "take n (drop k (take N xs)) = take n (drop k xs)"
  using assms by (simp add: drop_take min_def)

lemma new_oper_sel [simp]:
  "o_data (new_oper d app) = d" "o_append (new_oper d app) = app"
  "o_large_buflock (new_oper d app) = None" "o_buffer_group (new_oper d app) = \<lparr>buffers = []\<rparr>"
  by (simp_all add: new_oper_def)

lemma large_large_append:
  assumes c: "cfg_ok c" and large: "is_large old" and ok: "value_ok c tx old"
    and fit: "value_size old + get_size d \<le> MAX_VALUE_SIZE c"
  shows "\<exists>f. operate c (new_oper d True) tx (Some old) (lock_of old) nlb = Inr f \<and>
             f_return f = (dp_fail d = None) \<and>
             o_result (f_self f)
               = Some (if dp_fail d = None then apr_success else apr_data_provider_failed) \<and>
             buffers (o_buffer_group (f_self f))
               = seg_spans (block_size c) (r_offset (v_ref old) + value_size old) (get_size d) \<and>
             length (f_tx f) = length tx \<and>
             (\<forall>i. i \<noteq> r_root (v_ref old) \<longrightarrow> f_tx f ! i = tx ! i) \<and>
             (dp_fail d \<noteq> None \<longrightarrow>
                f_new_value f = None \<and> v_ref (o_value (f_self f)) = v_ref old \<and>
                value_ok c (f_tx f) old \<and> value_bytes (f_tx f) old = value_bytes tx old) \<and>
             (dp_fail d = None \<longrightarrow>
                (\<exists>v. f_new_value f = Some v \<and> v = o_value (f_self f) \<and> is_large v \<and>
                     v_ref v = (v_ref old)\<lparr>r_size := value_size old + get_size d\<rparr> \<and>
                     value_ok c (f_tx f) v \<and>
                     value_bytes (f_tx f) v = value_bytes tx old @ dp_bytes d \<and>
                     f_new_large_buflock f = Some (r_root (v_ref old))))"
proof -
  define B where "B = block_size c"
  define r where "r = v_ref old"
  define off where "off = r_offset r"
  define sz where "sz = r_size r"
  define h where "h = r_root r"
  define n where "n = get_size d"
  define cap where "cap = MAX_IN_NODE_VALUE_SIZE c"
  define m where "m = lb_mem (tx ! h)"
  define r' where "r' = r\<lparr>r_size := sz + n\<rparr>"
  define m' :: "byte list" where "m' = m @ replicate (num_segs c r' * B - length m) 0"
  define m2 where "m2 = overwrite (off + sz) (delivered d) m'"
  define m3 where "m3 = take (num_segs c r * B) m2"
  define adj where "adj = refsize_of c r' - refsize_of c r"
  define s2 where "s2 = (new_oper d True)\<lparr>o_value := valuecpy c old\<rparr>"
  define s3 where "s3 = s2\<lparr>o_value := old\<lparr>v_ref := r', v_size := nat (int (v_size old) + adj)\<rparr>,
                          o_large_buflock := Some h, o_is_old_large_value := True\<rparr>"
  define s4 where "s4 = s3\<lparr>o_buffer_group := \<lparr>buffers = seg_spans B (off + sz) n\<rparr>\<rparr>"
  define tx3 where "tx3 = tx[h := (tx ! h)\<lparr>lb_mem := m'\<rparr>]"
  have B: "0 < B" "B < 2 ^ 16"
    and mx: "cap < MAX_VALUE_SIZE c" "MAX_VALUE_SIZE c < 2 ^ 32"
    using c by (simp_all add: cfg_ok_def B_def cap_def)
  have vl: "v_large old" using large by (simp add: is_large_def)
  have vsz: "value_size old = sz" using large by (simp add: value_size_def sz_def r_def)
  have okf: "cap < sz" "off < B" "h < length tx" "\<not> lb_deleted (tx ! h)"
    "length m = num_segs c r * B" "sz + n \<le> MAX_VALUE_SIZE c" "sz \<le> MAX_VALUE_SIZE c"
    using ok large fit
    by (simp_all add: value_ok_def cap_def sz_def r_def off_def h_def m_def B_def n_def vsz)
  have lock: "lock_of old = Some h" using large by (simp add: lock_of_def h_def r_def)
  have nowrap: "(sz + n) mod 2 ^ 64 = sz + n" using okf mx by simp
  have n32: "n mod 2 ^ 32 = n" using okf mx by simp
  have s32: "sz mod 2 ^ 32 = sz" using okf mx by simp
  have obs: "value_bytes tx old = take sz (drop off m)"
    using large by (simp add: value_bytes_def lb_bytes_def r_def sz_def off_def m_def h_def)
  have r'f: "r_offset r' = off" "r_size r' = sz + n" "r_root r' = h"
    by (simp_all add: r'_def off_def h_def)
  have Nle: "num_segs c r \<le> num_segs c r'"
    by (rule num_segs_mono) (simp_all add: r'f off_def sz_def)
  have m'l: "length m' = num_segs c r' * B"
    using okf Nle by (simp add: m'_def)
  have end_r: "off + sz \<le> length m"
    using num_segs_ge[of c r] B(1) okf by (simp add: off_def sz_def B_def)
  have end_r': "off + sz + n \<le> length m'"
    using num_segs_ge[of c r'] B(1) m'l by (simp add: r'f B_def add.assoc)
  have dl: "length (delivered d) \<le> n" using length_delivered[of d] by (simp add: n_def)
  have m2l: "length m2 = num_segs c r' * B" using end_r' dl m'l by (simp add: m2_def)
  have keep: "take (off + sz) m2 = take (off + sz) m"
    using end_r by (simp add: m2_def overwrite_def m'_def)
  have ltl: "large_to_large c s2 tx old (Some h) = Inr (s3, tx3, None)"
    using okf
    by (simp add: large_to_large_def s2_def s3_def new_oper_def lb_append_def Let_def
        r_def[symmetric] n_def[symmetric] sz_def[symmetric] r'_def[symmetric] h_def[symmetric]
        m_def[symmetric] B_def[symmetric] m'_def adj_def tx3_def)
  have loop: "fill_loop c r' n (pos_to_ix c r' sz) (pos_to_seg_pos c r' sz mod 2 ^ 16) \<lparr>buffers = []\<rparr>
              = Inr \<lparr>buffers = seg_spans B (off + sz) n\<rparr>"
  proof -
    have "sz + n \<le> r_size r'" by (simp add: r'f)
    from fill_loop_at[OF B[unfolded B_def] this, of "\<lparr>buffers = []\<rparr>"]
    show ?thesis by (simp add: r'f B_def)
  qed
  have prep: "prepare c s2 tx old (Some h) (sz + n) = Inr (s4, tx3, None)"
  proof -
    have "o_buffer_group s3 = \<lparr>buffers = []\<rparr>" "o_data s3 = d" "o_append s3"
      "v_ref (o_value s3) = r'"
      by (simp_all add: s3_def s2_def new_oper_def)
    then show ?thesis
      using okf large ltl loop n32 s32
      by (simp add: prepare_def cap_def[symmetric] Let_def n_def[symmetric] vsz s4_def)
  qed
  have tx3h: "tx3 ! h = (tx ! h)\<lparr>lb_mem := m'\<rparr>" "length tx3 = length tx"
    using okf by (simp_all add: tx3_def)
  have fill: "get_data_into_buffers c d (o_buffer_group s4) (s4\<lparr>o_result := Some apr_success\<rparr>, tx3)
              = Inr (dp_fail d = None, s4\<lparr>o_result := Some apr_success\<rparr>,
                     tx[h := (tx ! h)\<lparr>lb_mem := m2\<rparr>])"
  proof -
    have "off + sz + get_size d \<le> length (lb_mem (tx3 ! h))"
      using end_r' tx3h by (simp add: n_def)
    moreover have "buffers (o_buffer_group s4) = seg_spans (block_size c) (off + sz) (get_size d)"
      by (simp add: s4_def B_def n_def)
    moreover have "o_large_buflock (s4\<lparr>o_result := Some apr_success\<rparr>) = Some h"
      by (simp add: s4_def s3_def)
    ultimately show ?thesis
      using B(1) tx3h okf by (simp add: fill_segments B_def m2_def) (simp add: tx3_def)
  qed
  have good: "dp_fail d = None \<Longrightarrow> take (sz + n) (drop off m2) = take sz (drop off m) @ dp_bytes d"
    using end_r
    by (simp add: m2_def overwrite_def delivered_ok m'_def n_def get_size_def drop_take)
  have unapp: "lb_unappend c r' ((tx ! h)\<lparr>lb_mem := m2\<rparr>) n
              = Inr (r, (tx ! h)\<lparr>lb_mem := m3\<rparr>, refsize_of c r - refsize_of c r')"
    by (simp add: lb_unappend_def r'f r'_def m3_def B_def sz_def)
  have m3l: "length m3 = num_segs c r * B"
    using m2l Nle by (simp add: m3_def)
  have restored: "take sz (drop off m3) = take sz (drop off m)"
  proof -
    have "off + sz \<le> num_segs c r * B" using end_r okf by simp
    then have "take sz (drop off m3) = take sz (drop off m2)"
      unfolding m3_def by (rule take_drop_window)
    also have "\<dots> = drop off (take (off + sz) m2)"
      by (simp add: drop_take)
    also have "\<dots> = drop off (take (off + sz) m)"
      by (simp only: keep)
    also have "\<dots> = take sz (drop off m)"
      by (simp add: drop_take)
    finally show ?thesis .
  qed
  have op: "operate c (new_oper d True) tx (Some old) (lock_of old) nlb
            = dispatch c s4 tx3 None nlb"
    using okf mx large nowrap prep
    by (simp add: operate_def Let_def vsz n_def[symmetric] lock s2_def)
  show ?thesis
    unfolding op
    using fill good unapp restored vsz obs okf m2l m3l vl
    by (simp add: dispatch_def rollback_def s4_def s3_def s2_def new_oper_def is_large_def
        value_size_def value_bytes_def lb_bytes_def n_def[symmetric] B_def[symmetric]
        value_ok_def cap_def[symmetric] r'f r_def[symmetric] off_def[symmetric]
        sz_def[symmetric] h_def[symmetric] r'_def[symmetric])
qed

lemma drop_overwrite_after:
  assumes "k + length bs \<le> j" "k + length bs \<le> length m"
  shows "drop j (overwrite k bs m) = drop j m"
proof -
  have "length (take k m) = k" using assms by simp
  then have "drop j (overwrite k bs m) = drop (j - k - length bs) (drop (k + length bs) m)"
    using assms by (simp add: overwrite_def)
  then show ?thesis using assms by simp
qed

lemma drop_overwrite_at:
  assumes "k + length bs \<le> length m"
  shows "drop k (overwrite k bs m) = bs @ drop (k + length bs) m"
  using assms by (simp add: overwrite_def)

lemma prepend_geometry:
  fixes B off n sz :: nat
  assumes "0 < B" "off < B"
  defines "k \<equiv> (if n \<le> off then 0 else (n - off + B - 1) div B)"
  shows "n \<le> off + k * B" "off + k * B - n < B"
    "(off + k * B) div B = k" "(off + k * B) mod B = off"
    "(off + k * B - n + (sz + n) + B - 1) div B = k + (off + sz + B - 1) div B"
proof -
  show 1: "n \<le> off + k * B"
  proof (cases "n \<le> off")
    case True then show ?thesis by simp
  next
    case False
    then have "k = (n - off + B - 1) div B" by (simp add: k_def)
    then have "n - off \<le> k * B" using ceil_div_ge[OF assms(1), of "n - off"] by simp
    then show ?thesis by simp
  qed
  show "off + k * B - n < B"
  proof (cases "n \<le> off")
    case True then show ?thesis using assms by (simp add: k_def)
  next
    case False
    then have "k = (n - off + B - 1) div B" by (simp add: k_def)
    then have "k * B < n - off + B" using ceil_div_lt[OF assms(1), of "n - off"] by simp
    moreover define x where "x = k * B"
    ultimately have "x < n - off + B" by simp
    then have "off + x - n < B" using False assms(1) by arith
    then show ?thesis by (simp add: x_def)
  qed
  show "(off + k * B) div B = k" using assms by simp
  show "(off + k * B) mod B = off" using assms by simp
  define Y where "Y = off + sz + B - 1"
  have "off + k * B - n + (sz + n) + B - 1 = Y + k * B"
    using 1 assms by (simp add: Y_def)
  moreover have "(Y + k * B) div B = k + Y div B"
    using assms(1) by simp
  ultimately show "(off + k * B - n + (sz + n) + B - 1) div B = k + (off + sz + B - 1) div B"
    by (simp only: Y_def)
qed

lemma large_large_prepend:
  assumes c: "cfg_ok c" and large: "is_large old" and ok: "value_ok c tx old"
    and fit: "value_size old + get_size d \<le> MAX_VALUE_SIZE c"
  shows "\<exists>r' f. operate c (new_oper d False) tx (Some old) (lock_of old) nlb = Inr f \<and>
             f_return f = (dp_fail d = None) \<and>
             o_result (f_self f)
               = Some (if dp_fail d = None then apr_success else apr_data_provider_failed) \<and>
             r_size r' = value_size old + get_size d \<and> r_offset r' < block_size c \<and>
             r_root r' = r_root (v_ref old) \<and>
             buffers (o_buffer_group (f_self f))
               = seg_spans (block_size c) (r_offset r') (get_size d) \<and>
             length (f_tx f) = length tx \<and>
             (\<forall>i. i \<noteq> r_root (v_ref old) \<longrightarrow> f_tx f ! i = tx ! i) \<and>
             (dp_fail d \<noteq> None \<longrightarrow>
                f_new_value f = None \<and> v_ref (o_value (f_self f)) = v_ref old \<and>
                value_ok c (f_tx f) old \<and> value_bytes (f_tx f) old = value_bytes tx old) \<and>
             (dp_fail d = None \<longrightarrow>
                (\<exists>v. f_new_value f = Some v \<and> v = o_value (f_self f) \<and> is_large v \<and>
                     v_ref v = r' \<and>
                     value_ok c (f_tx f) v \<and>
                     value_bytes (f_tx f) v = dp_bytes d @ value_bytes tx old \<and>
                     f_new_large_buflock f = Some (r_root (v_ref old))))"
proof -
  define B where "B = block_size c"
  define r where "r = v_ref old"
  define off where "off = r_offset r"
  define sz where "sz = r_size r"
  define h where "h = r_root r"
  define n where "n = get_size d"
  define cap where "cap = MAX_IN_NODE_VALUE_SIZE c"
  define m where "m = lb_mem (tx ! h)"
  define k where "k = (if n \<le> off then 0 else (n - off + B - 1) div B)"
  define off' where "off' = off + k * B - n"
  define r' where "r' = r\<lparr>r_offset := off', r_size := sz + n\<rparr>"
  define m' :: "byte list" where "m' = replicate (k * B) 0 @ m"
  define m2 where "m2 = overwrite off' (delivered d) m'"
  define m3 where "m3 = drop (k * B) m2"
  define adj where "adj = refsize_of c r' - refsize_of c r"
  define s2 where "s2 = (new_oper d False)\<lparr>o_value := valuecpy c old\<rparr>"
  define s3 where "s3 = s2\<lparr>o_value := old\<lparr>v_ref := r', v_size := nat (int (v_size old) + adj)\<rparr>,
                          o_large_buflock := Some h, o_is_old_large_value := True\<rparr>"
  define s4 where "s4 = s3\<lparr>o_buffer_group := \<lparr>buffers = seg_spans B off' n\<rparr>\<rparr>"
  define tx3 where "tx3 = tx[h := (tx ! h)\<lparr>lb_mem := m'\<rparr>]"
  have B: "0 < B" "B < 2 ^ 16"
    and mx: "cap < MAX_VALUE_SIZE c" "MAX_VALUE_SIZE c < 2 ^ 32"
    using c by (simp_all add: cfg_ok_def B_def cap_def)
  have vl: "v_large old" using large by (simp add: is_large_def)
  have vsz: "value_size old = sz" using large by (simp add: value_size_def sz_def r_def)
  have okf: "cap < sz" "off < B" "h < length tx" "\<not> lb_deleted (tx ! h)"
    "length m = num_segs c r * B" "sz + n \<le> MAX_VALUE_SIZE c" "sz \<le> MAX_VALUE_SIZE c"
    using ok large fit
    by (simp_all add: value_ok_def cap_def sz_def r_def off_def h_def m_def B_def n_def vsz)
  have lock: "lock_of old = Some h" using large by (simp add: lock_of_def h_def r_def)
  have nowrap: "(sz + n) mod 2 ^ 64 = sz + n" using okf mx by simp
  have n32: "n mod 2 ^ 32 = n" using okf mx by simp
  have obs: "value_bytes tx old = take sz (drop off m)"
    using large by (simp add: value_bytes_def lb_bytes_def r_def sz_def off_def m_def h_def)
  note geo = prepend_geometry(1-4)[OF B(1) okf(2), of n, folded k_def, folded off'_def]
    prepend_geometry(5)[OF B(1) okf(2), of n sz, folded k_def, folded off'_def]
  have r'f: "r_offset r' = off'" "r_size r' = sz + n" "r_root r' = h"
    by (simp_all add: r'_def h_def)
  have Nr': "num_segs c r' = k + num_segs c r"
    using geo(5) by (simp add: num_segs_def r'f B_def off_def sz_def)
  have m'l: "length m' = num_segs c r' * B"
    using okf Nr' by (simp add: m'_def algebra_simps)
  have end_r: "off + sz \<le> length m"
    using num_segs_ge[of c r] B(1) okf by (simp add: off_def sz_def B_def)
  have on: "off' + n = off + k * B" using geo(1) by (simp add: off'_def)
  have end_r': "off' + n \<le> length m'"
    using end_r by (simp add: on m'_def)
  have dl: "length (delivered d) \<le> n" using length_delivered[of d] by (simp add: n_def)
  have m2l: "length m2 = num_segs c r' * B" using end_r' dl m'l by (simp add: m2_def)
  have tail: "drop (off' + n) m2 = drop off m"
  proof -
    have "drop (off' + n) m2 = drop (off' + n) m'"
      unfolding m2_def using dl end_r' by (intro drop_overwrite_after) simp_all
    also have "\<dots> = drop off m" by (simp add: on m'_def)
    finally show ?thesis .
  qed
  have lp: "lb_prepend c r (tx ! h) n = (r', (tx ! h)\<lparr>lb_mem := m'\<rparr>, adj)"
    by (simp add: lb_prepend_def Let_def r'_def off'_def k_def m'_def adj_def off_def sz_def
        B_def m_def)
  have ltl: "large_to_large c s2 tx old (Some h) = Inr (s3, tx3, None)"
    using okf(3) lp
    by (simp add: large_to_large_def s2_def s3_def tx3_def r_def n_def h_def)
  have loop: "fill_loop c r' n (pos_to_ix c r' 0) (pos_to_seg_pos c r' 0 mod 2 ^ 16) \<lparr>buffers = []\<rparr>
              = Inr \<lparr>buffers = seg_spans B off' n\<rparr>"
  proof -
    have "0 + n \<le> r_size r'" by (simp add: r'f)
    from fill_loop_at[OF B[unfolded B_def] this, of "\<lparr>buffers = []\<rparr>"]
    show ?thesis by (simp add: r'f B_def)
  qed
  have prep: "prepare c s2 tx old (Some h) (sz + n) = Inr (s4, tx3, None)"
  proof -
    have "o_buffer_group s3 = \<lparr>buffers = []\<rparr>" "o_data s3 = d" "\<not> o_append s3"
      "v_ref (o_value s3) = r'"
      by (simp_all add: s3_def s2_def)
    then show ?thesis
      using okf large ltl loop n32
      by (simp add: prepare_def cap_def[symmetric] Let_def n_def[symmetric] vsz s4_def)
  qed
  have tx3h: "tx3 ! h = (tx ! h)\<lparr>lb_mem := m'\<rparr>" "length tx3 = length tx"
    using okf by (simp_all add: tx3_def)
  have fill: "get_data_into_buffers c d (o_buffer_group s4) (s4\<lparr>o_result := Some apr_success\<rparr>, tx3)
              = Inr (dp_fail d = None, s4\<lparr>o_result := Some apr_success\<rparr>,
                     tx[h := (tx ! h)\<lparr>lb_mem := m2\<rparr>])"
  proof -
    have "off' + get_size d \<le> length (lb_mem (tx3 ! h))"
      using end_r' tx3h by (simp add: n_def)
    moreover have "buffers (o_buffer_group s4) = seg_spans (block_size c) off' (get_size d)"
      by (simp add: s4_def B_def n_def)
    moreover have "o_large_buflock (s4\<lparr>o_result := Some apr_success\<rparr>) = Some h"
      by (simp add: s4_def s3_def)
    ultimately show ?thesis
      using B(1) tx3h okf by (simp add: fill_segments B_def m2_def) (simp add: tx3_def)
  qed
  have good: "take (sz + n) (drop off' m2) = dp_bytes d @ take sz (drop off m)" if "dp_fail d = None"
  proof -
    have len: "length (dp_bytes d) = n" by (simp add: n_def get_size_def)
    have "drop off' m2 = dp_bytes d @ drop (off' + n) m'"
      unfolding m2_def using that end_r' len
      by (simp add: drop_overwrite_at delivered_ok)
    also have "drop (off' + n) m' = drop off m" by (simp add: on m'_def)
    finally show ?thesis using len by simp
  qed
  have unprep: "lb_unprepend c r' ((tx ! h)\<lparr>lb_mem := m2\<rparr>) n
              = Inr (r, (tx ! h)\<lparr>lb_mem := m3\<rparr>, refsize_of c r - refsize_of c r')"
    using geo(3,4)
    by (simp add: lb_unprepend_def r'f on r'_def m3_def B_def[symmetric] sz_def off_def)
  have m3l: "length m3 = num_segs c r * B"
    using m2l Nr' by (simp add: m3_def algebra_simps)
  have restored: "take sz (drop off m3) = take sz (drop off m)"
  proof -
    have "drop off m3 = drop (off + k * B) m2" by (simp add: m3_def add.commute)
    then have "drop off m3 = drop (off' + n) m2" by (simp only: on)
    then show ?thesis by (simp add: tail)
  qed
  have op: "operate c (new_oper d False) tx (Some old) (lock_of old) nlb
            = dispatch c s4 tx3 None nlb"
    using okf mx large nowrap prep
    by (simp add: operate_def Let_def vsz n_def[symmetric] lock s2_def)
  show ?thesis
    unfolding op
    using fill good unprep restored vsz obs okf m2l m3l vl geo(2)
    by (intro exI[of _ r'])
       (simp add: dispatch_def rollback_def s4_def s3_def s2_def is_large_def
        value_size_def value_bytes_def lb_bytes_def n_def[symmetric] B_def[symmetric]
        value_ok_def cap_def[symmetric] r'f r_def[symmetric] off_def[symmetric]
        sz_def[symmetric] h_def[symmetric])
qed

lemma lock_of_small: "\<not> is_large v \<Longrightarrow> lock_of v = None"
  by (simp add: lock_of_def)

lemma cfg0_ok: "cfg_ok cfg0"
  by (simp add: cfg_ok_def cfg0_def)

lemma v_big_ok: "value_ok cfg0 tx_big v_big"
  by (simp add: value_ok_def cfg0_def tx_big_def v_big_def is_large_def num_segs_def)

lemma v_small_ok: "value_ok cfg0 tx v_small"
  by (simp add: value_ok_def cfg0_def v_small_def is_large_def)

lemma v_big_bytes: "value_bytes tx_big v_big = [1, 2, 3, 4, 5, 6, 7, 8, 9]"
  by (simp add: value_bytes_def lb_bytes_def tx_big_def v_big_def is_large_def)

lemma value_size_bound:
  assumes "cfg_ok c" "value_ok c tx old"
  shows "value_size old \<le> MAX_VALUE_SIZE c" "value_size old < 2 ^ 32"
proof -
  show "value_size old \<le> MAX_VALUE_SIZE c"
    using assms by (cases "is_large old") (simp_all add: value_ok_def cfg_ok_def value_size_def)
  then show "value_size old < 2 ^ 32"
    using assms(1) by (simp add: cfg_ok_def)
qed

lemma no_wrap:
  assumes "cfg_ok c" "value_ok c tx old" "provider_ok d"
  shows "(value_size old + get_size d) mod 2 ^ 64 = value_size old + get_size d"
proof -
  have "value_size old + get_size d < 2 ^ 32 + 2 ^ 63"
    using value_size_bound(2)[OF assms(1,2)] assms(3) by (simp add: provider_ok_def)
  then show ?thesis by simp
qed

lemma replicate_numeral: "replicate (numeral k) x = x # replicate (pred_numeral k) x"
  by (simp add: numeral_eq_Suc)

lemmas eval_defs = replicate_numeral
  operate_def prepare_def small_to_small_def small_to_large_def large_to_large_def
  dispatch_def rollback_def get_data_into_buffers_def delivered_def store_bytes_def
  write_at_def read_at_def memmove_def overwrite_def add_buffer_def get_size_bg_def
  get_size_def value_size_def is_large_def set_value_size_def valuecpy_def new_oper_def
  allocate_def fill_at_def lb_append_def lb_prepend_def lb_unappend_def lb_unprepend_def
  mark_deleted_def num_segs_def pos_to_ix_def pos_to_seg_pos_def get_segment_write_def
  refsize_of_def lock_of_def fill_loop.simps Let_def
  cfg0_def v_small_def v_big_def tx_big_def dp_ok_def dp_failing_def

lemma small_to_large_run:
  "operate cfg0 (new_oper (dp_ok [9, 8, 7, 6, 5, 4]) True) [] (Some v_small) (lock_of v_small) None
   = Inr \<lparr>f_return = True,
        f_self =
          \<lparr>o_result = Some apr_success,
             o_data = \<lparr>dp_bytes = [9, 8, 7, 6, 5, 4], dp_fail = None\<rparr>,
             o_append = True,
             o_value =
               \<lparr>v_size = 16, v_large = True,
                  v_contents = [1, 2, 3, 0, 0, 0, 0, 0],
                  v_ref = \<lparr>r_size = 9, r_offset = 0, r_root = 0\<rparr>\<rparr>,
             o_is_old_large_value = False, o_large_buflock = None,
             o_buffer_group =
               \<lparr>buffers =
                  [\<lparr>size_b = 1, data_b = Seg_mem 0 3\<rparr>,
                   \<lparr>size_b = 4, data_b = Seg_mem 1 0\<rparr>,
                   \<lparr>size_b = 1, data_b = Seg_mem 2 0\<rparr>]\<rparr>\<rparr>,
        f_tx =
          [\<lparr>lb_mem = [1, 2, 3, 9, 8, 7, 6, 5, 4, 0, 0, 0],
              lb_deleted = False\<rparr>],
        f_new_value =
          Some
           \<lparr>v_size = 16, v_large = True,
              v_contents = [1, 2, 3, 0, 0, 0, 0, 0],
              v_ref = \<lparr>r_size = 9, r_offset = 0, r_root = 0\<rparr>\<rparr>,
        f_old_large_buflock = None, f_new_large_buflock = Some 0\<rparr>"
  by (simp add: eval_defs)

lemma operate_fit_result:
  assumes "cfg_ok c" and "value_ok c tx old"
    and "value_size old + get_size d \<le> MAX_VALUE_SIZE c"
  shows "\<exists>f. operate c (new_oper d app) tx (Some old) (lock_of old) None = Inr f \<and>
             f_return f = (dp_fail d = None) \<and>
             o_result (f_self f)
               = Some (if dp_fail d = None then apr_success else apr_data_provider_failed)"
proof (cases "is_large old")
  case False
  show ?thesis
  proof (cases "value_size old + get_size d \<le> MAX_IN_NODE_VALUE_SIZE c")
    case True
    from small_small_case[OF assms(1) False assms(2) True, of app None None]
    show ?thesis by (auto simp: lock_of_small[OF False])
  next
    case big: False
    then have "MAX_IN_NODE_VALUE_SIZE c < value_size old + get_size d" by simp
    from small_large_case[OF assms(1) False assms(2) this assms(3), of app None None]
    show ?thesis by (auto simp: lock_of_small[OF False])
  qed
next
  case True
  show ?thesis
  proof (cases app)
    case app: True
    from large_large_append[OF assms(1) True assms(2,3), of None] app
    show ?thesis by auto
  next
    case app: False
    from large_large_prepend[OF assms(1) True assms(2,3), of None] app
    show ?thesis by auto
  qed
qed

lemma operate_total:
  assumes "cfg_ok c" and "value_ok c tx old" and "provider_ok d"
  shows "\<exists>f. operate c (new_oper d app) tx (Some old) (lock_of old) None = Inr f \<and>
             o_result (f_self f)
               = Some (if MAX_VALUE_SIZE c < value_size old + get_size d then apr_too_large
                       else if dp_fail d = None then apr_success
                       else apr_data_provider_failed) \<and>
             f_return f = (o_result (f_self f) = Some apr_success)"
proof (cases "MAX_VALUE_SIZE c < value_size old + get_size d")
  case True
  then show ?thesis
    using no_wrap[OF assms] by (simp add: operate_def Let_def)
next
  case False
  then have fit: "value_size old + get_size d \<le> MAX_VALUE_SIZE c" by simp
  from operate_fit_result[OF assms(1,2) fit, of app] False
  show ?thesis by auto
qed

lemma seg_spans_Cons:
  assumes "0 < B" "0 < n"
  shows "seg_spans B a n
         = \<lparr>size_b = min (B - a mod B) n, data_b = Seg_mem (a div B) (a mod B)\<rparr> #
           seg_spans B (a + min (B - a mod B) n) (n - min (B - a mod B) n)"
  using assms by (subst seg_spans.simps) simp

lemma seg_spans_Nil: "seg_spans B a 0 = []"
  by (simp add: seg_spans.simps)

lemma seg_spans_addrs:
  "0 < block_size c \<Longrightarrow>
   concat (map (span_addrs c) (seg_spans (block_size c) a n)) = [a ..< a + n]"
proof (induction "block_size c" a n rule: seg_spans.induct)
  case (1 a n)
  show ?case
  proof (cases "n = 0")
    case True
    then show ?thesis by (simp add: seg_spans_Nil)
  next
    case False
    define l where "l = min (block_size c - a mod block_size c) n"
    define x where "x = \<lparr>size_b = l, data_b = Seg_mem (a div block_size c) (a mod block_size c)\<rparr>"
    have ln: "a + l + (n - l) = a + n" by (simp add: l_def)
    have rest: "concat (map (span_addrs c) (seg_spans (block_size c) (a + l) (n - l)))
                = [a + l ..< a + l + (n - l)]"
      unfolding l_def
    proof (rule "1.hyps")
      show "\<not> (n = 0 \<or> block_size c = 0)" using False "1.prems" by simp
      show "0 < block_size c" by fact
    qed
    have first: "span_addrs c x = [a ..< a + l]"
      by (simp add: span_addrs_def x_def)
    have spans: "seg_spans (block_size c) a n = x # seg_spans (block_size c) (a + l) (n - l)"
      unfolding l_def x_def using "1.prems" False by (intro seg_spans_Cons) simp_all
    have "concat (map (span_addrs c) (seg_spans (block_size c) a n))
          = span_addrs c x @ concat (map (span_addrs c) (seg_spans (block_size c) (a + l) (n - l)))"
      by (simp only: spans list.map concat.simps)
    also have "\<dots> = [a ..< a + l] @ [a + l ..< a + l + (n - l)]"
      by (simp only: first rest)
    also have "\<dots> = [a ..< a + l + (n - l)]"
      by (rule upt_add_eq_append[symmetric]) simp
    finally show ?thesis by (simp only: ln)
  qed
qed

lemma seg_spans_in_one:
  "0 < block_size c \<Longrightarrow> b \<in> set (seg_spans (block_size c) a n) \<Longrightarrow> in_one_segment c b"
proof (induction "block_size c" a n rule: seg_spans.induct)
  case (1 a n)
  show ?case
  proof (cases "n = 0")
    case True
    then show ?thesis using "1.prems" by (simp add: seg_spans_Nil)
  next
    case False
    define l where "l = min (block_size c - a mod block_size c) n"
    have "a mod block_size c < block_size c" using "1.prems" by simp
    then have l: "0 < l" "a mod block_size c + l \<le> block_size c"
      using False unfolding l_def by linarith+
    have "seg_spans (block_size c) a n
          = \<lparr>size_b = l, data_b = Seg_mem (a div block_size c) (a mod block_size c)\<rparr> #
            seg_spans (block_size c) (a + l) (n - l)"
      unfolding l_def using "1.prems"(1) False by (intro seg_spans_Cons) simp_all
    with "1.prems"(2) have "b = \<lparr>size_b = l, data_b = Seg_mem (a div block_size c) (a mod block_size c)\<rparr>
          \<or> b \<in> set (seg_spans (block_size c) (a + l) (n - l))"
      by simp
    then show ?thesis
    proof
      assume "b = \<lparr>size_b = l, data_b = Seg_mem (a div block_size c) (a mod block_size c)\<rparr>"
      then show ?thesis using l by (simp add: in_one_segment_def)
    next
      assume "b \<in> set (seg_spans (block_size c) (a + l) (n - l))"
      then have "b \<in> set (seg_spans (block_size c)
                   (a + min (block_size c - a mod block_size c) n)
                   (n - min (block_size c - a mod block_size c) n))"
        by (simp only: l_def)
      moreover have "\<not> (n = 0 \<or> block_size c = 0)" using False "1.prems"(1) by simp
      ultimately show ?thesis
        using "1.prems"(1) by (rule "1.hyps"[rotated 2])
    qed
  qed
qed

lemma seg_spans_segs:
  "0 < B \<Longrightarrow>
   map span_seg (seg_spans B a n) = map Some [a div B ..< a div B + length (seg_spans B a n)]"
proof (induction B a n rule: seg_spans.induct)
  case (1 B a n)
  show ?case
  proof (cases "n = 0")
    case True
    then show ?thesis by (simp add: seg_spans_Nil)
  next
    case False
    define l where "l = min (B - a mod B) n"
    define rest where "rest = seg_spans B (a + l) (n - l)"
    have spans: "seg_spans B a n = \<lparr>size_b = l, data_b = Seg_mem (a div B) (a mod B)\<rparr> # rest"
      unfolding l_def rest_def using "1.prems" False by (intro seg_spans_Cons) simp_all
    have IH: "map span_seg rest = map Some [(a + l) div B ..< (a + l) div B + length rest]"
      unfolding rest_def l_def
    proof (rule "1.IH")
      show "\<not> (n = 0 \<or> B = 0)" using False "1.prems" by simp
      show "0 < B" by fact
    qed
    have next_seg: "(a + l) div B = a div B + 1" if "rest \<noteq> []"
    proof -
      have "n - l \<noteq> 0" using that by (auto simp: rest_def seg_spans_Nil)
      then have lB: "l = B - a mod B" by (simp add: l_def min_def split: if_splits)
      define m where "m = a mod B"
      define X where "X = a div B * B"
      have "m < B" using "1.prems" by (simp add: m_def)
      moreover have "a = X + m" by (simp add: X_def m_def)
      moreover have "l = B - m" using lB by (simp add: m_def)
      ultimately have "a + l = X + B" by linarith
      then have "(a + l) div B = (a div B * B + B) div B" by (simp add: X_def)
      also have "\<dots> = a div B + 1" using "1.prems" by simp
      finally show ?thesis .
    qed
    have first: "span_seg \<lparr>size_b = l, data_b = Seg_mem (a div B) (a mod B)\<rparr> = Some (a div B)"
      by (simp add: span_seg_def)
    show ?thesis
    proof (cases "rest = []")
      case True
      then show ?thesis by (simp add: spans first)
    next
      case False
      have "[a div B ..< a div B + Suc (length rest)]
            = a div B # [Suc (a div B) ..< Suc (a div B) + length rest]"
        by (simp add: upt_conv_Cons del: upt_Suc)
      moreover have "map span_seg rest = map Some [Suc (a div B) ..< Suc (a div B) + length rest]"
        using IH next_seg[OF False] by simp
      ultimately show ?thesis
        by (simp add: spans first del: upt_Suc)
    qed
  qed
qed

lemma seg_spans_cover:
  assumes "0 < block_size c" and "a = r_offset r + start"
    and "g = seg_spans (block_size c) a n"
  shows "concat (map (span_addrs c) g) = [r_offset r + start ..< r_offset r + start + n] \<and>
         (\<forall>b \<in> set g. in_one_segment c b) \<and>
         map span_seg g
           = map Some [(r_offset r + start) div block_size c ..<
                       (r_offset r + start) div block_size c + length g]"
  using assms seg_spans_addrs[of c a n] seg_spans_in_one[of c _ a n]
    seg_spans_segs[of "block_size c" a n]
  by simp

lemma append_big_run:
  "operate cfg0 (new_oper (dp_ok [21, 22, 23, 24, 25, 26]) True) tx_big (Some v_big)
     (lock_of v_big) None = Inr frame_append_big"
  by (simp add: eval_defs frame_append_big_def)

lemma buffer_group_spans:
  assumes "cfg_ok c" and "value_ok c tx old"
    and "value_size old + get_size d \<le> MAX_VALUE_SIZE c"
    and "operate c (new_oper d app) tx (Some old) (lock_of old) None = Inr f"
  shows "get_size_bg (o_buffer_group (f_self f)) = get_size d \<and>
         (MAX_IN_NODE_VALUE_SIZE c < value_size old + get_size d \<longrightarrow>
            (\<exists>r. r_size r = value_size old + get_size d \<and> r_offset r < block_size c \<and>
                 (\<forall>v. f_new_value f = Some v \<longrightarrow> v_ref v = r) \<and>
                 concat (map (span_addrs c) (buffers (o_buffer_group (f_self f))))
                   = [r_offset r + (if app then value_size old else 0) ..<
                      r_offset r + (if app then value_size old else 0) + get_size d] \<and>
                 (\<forall>b \<in> set (buffers (o_buffer_group (f_self f))). in_one_segment c b) \<and>
                 map span_seg (buffers (o_buffer_group (f_self f)))
                   = map Some
                       [(r_offset r + (if app then value_size old else 0)) div block_size c ..<
                        (r_offset r + (if app then value_size old else 0)) div block_size c
                          + length (buffers (o_buffer_group (f_self f)))]))"
proof -
  have B: "0 < block_size c" using assms(1) by (simp add: cfg_ok_def)
  show ?thesis
  proof (cases "is_large old")
    case False
    show ?thesis
    proof (cases "value_size old + get_size d \<le> MAX_IN_NODE_VALUE_SIZE c")
      case True
      from small_small_case[OF assms(1) False assms(2) True, of app None None] assms(4)
      show ?thesis using True by (auto simp: lock_of_small[OF False] get_size_bg_sum)
    next
      case big: False
      then have big': "MAX_IN_NODE_VALUE_SIZE c < value_size old + get_size d" by simp
      define r where "r = \<lparr>r_size = value_size old + get_size d, r_offset = 0, r_root = length tx\<rparr>"
      define g where "g = buffers (o_buffer_group (f_self f))"
      from small_large_case[OF assms(1) False assms(2) big' assms(3), of app None None] assms(4)
      have g: "g = seg_spans (block_size c) (if app then value_size old else 0) (get_size d)"
        and ref: "v_ref (o_value (f_self f)) = r"
        and nv: "\<forall>v. f_new_value f = Some v \<longrightarrow> v = o_value (f_self f)"
        by (auto simp: lock_of_small[OF False] g_def r_def)
      have "(if app then value_size old else 0) = r_offset r + (if app then value_size old else 0)"
        by (simp add: r_def)
      from seg_spans_cover[OF B this g]
      have cover: "concat (map (span_addrs c) g)
            = [r_offset r + (if app then value_size old else 0) ..<
               r_offset r + (if app then value_size old else 0) + get_size d] \<and>
           (\<forall>b \<in> set g. in_one_segment c b) \<and>
           map span_seg g
             = map Some [(r_offset r + (if app then value_size old else 0)) div block_size c ..<
                         (r_offset r + (if app then value_size old else 0)) div block_size c
                           + length g]" .
      have sum: "get_size_bg (o_buffer_group (f_self f)) = get_size d"
        using g B by (simp add: get_size_bg_sum g_def[symmetric] sum_seg_spans)
      have "r_size r = value_size old + get_size d" "r_offset r < block_size c"
        "\<forall>v. f_new_value f = Some v \<longrightarrow> v_ref v = r"
        using B ref nv by (auto simp: r_def)
      with cover sum show ?thesis unfolding g_def by blast
    qed
  next
    case True
    then have big: "MAX_IN_NODE_VALUE_SIZE c < value_size old + get_size d"
      and off: "r_offset (v_ref old) < block_size c"
      using assms(2) by (simp_all add: value_ok_def value_size_def)
    define g where "g = buffers (o_buffer_group (f_self f))"
    have "\<exists>r. r_size r = value_size old + get_size d \<and> r_offset r < block_size c \<and>
              (\<forall>v. f_new_value f = Some v \<longrightarrow> v_ref v = r) \<and>
              g = seg_spans (block_size c) (r_offset r + (if app then value_size old else 0))
                    (get_size d)"
    proof (cases app)
      case app: True
      from large_large_append[OF assms(1) True assms(2,3), of None] assms(4) app
      have g: "g = seg_spans (block_size c) (r_offset (v_ref old) + value_size old) (get_size d)"
        and nv: "\<forall>v. f_new_value f = Some v \<longrightarrow>
                     v_ref v = (v_ref old)\<lparr>r_size := value_size old + get_size d\<rparr>"
        by (auto simp: g_def)
      show ?thesis
        using g nv off app
        by (intro exI[of _ "(v_ref old)\<lparr>r_size := value_size old + get_size d\<rparr>"]) simp
    next
      case app: False
      from large_large_prepend[OF assms(1) True assms(2,3), of None] assms(4) app
      obtain r' where "r_size r' = value_size old + get_size d" "r_offset r' < block_size c"
        "g = seg_spans (block_size c) (r_offset r') (get_size d)"
        "\<forall>v. f_new_value f = Some v \<longrightarrow> v_ref v = r'"
        by (auto simp: g_def)
      then show ?thesis using app by (intro exI[of _ r']) simp
    qed
    then obtain r where r: "r_size r = value_size old + get_size d" "r_offset r < block_size c"
      "\<forall>v. f_new_value f = Some v \<longrightarrow> v_ref v = r"
      and g: "g = seg_spans (block_size c) (r_offset r + (if app then value_size old else 0))
                    (get_size d)"
      by blast
    from seg_spans_cover[OF B refl g]
    have cover: "concat (map (span_addrs c) g)
            = [r_offset r + (if app then value_size old else 0) ..<
               r_offset r + (if app then value_size old else 0) + get_size d] \<and>
           (\<forall>b \<in> set g. in_one_segment c b) \<and>
           map span_seg g
             = map Some [(r_offset r + (if app then value_size old else 0)) div block_size c ..<
                         (r_offset r + (if app then value_size old else 0)) div block_size c
                           + length g]" .
    have sum: "get_size_bg (o_buffer_group (f_self f)) = get_size d"
      using g B by (simp add: get_size_bg_sum g_def[symmetric] sum_seg_spans)
    from cover sum r show ?thesis unfolding g_def by blast
  qed
qed

lemma acquire_old_large_value_None [simp]:
  "acquire_old_large_value oper None = ([], None)"
  by (simp add: acquire_old_large_value_def)

lemma acquire_old_large_value_Some:
  "acquire_old_large_value oper (Some v)
   = (if is_large v then [actually_acquire_large_value oper] else [], lock_of v)"
  by (simp add: acquire_old_large_value_def lock_of_def)

text \<open>
  The sum of line 18 does not wrap when the provider's size fits an \<^verbatim>\<open>ssize_t\<close>. Then
  the size check rejects exactly the sums above \<open>MAX_VALUE_SIZE\<close>, the assertion of line
  42 holds, and \<^verbatim>\<open>btree_append_prepend\<close> returns one of the four results.
\<close>

lemma too_large_in_range:
  assumes "cfg_ok c" and "value_ok c tx old" and "provider_ok (o_data self)"
    and "MAX_VALUE_SIZE c < value_size old + get_size (o_data self)"
  shows "operate c self tx (Some old) olb nlb
         = Inr \<lparr>f_return = False, f_self = self\<lparr>o_result := Some apr_too_large\<rparr>, f_tx = tx,
                f_new_value = None, f_old_large_buflock = olb, f_new_large_buflock = nlb\<rparr>"
  using assms(4) no_wrap[OF assms(1-3)] by (simp add: operate_def Let_def)

lemma assertion_in_range:
  assumes "cfg_ok c" and "value_ok c tx old" and "provider_ok d"
  shows "((value_size old + get_size d) mod 2 ^ 64 \<le> MAX_IN_NODE_VALUE_SIZE c \<longrightarrow>
            \<not> is_large old \<and> small_to_small s tx old olb \<noteq> Inl Assertion_failed) \<and>
         operate c (new_oper d app) tx (Some old) (lock_of old) None \<noteq> Inl Assertion_failed"
proof -
  have "\<not> is_large old \<and> small_to_small s tx old olb \<noteq> Inl Assertion_failed"
    if "(value_size old + get_size d) mod 2 ^ 64 \<le> MAX_IN_NODE_VALUE_SIZE c"
  proof -
    have "value_size old + get_size d \<le> MAX_IN_NODE_VALUE_SIZE c"
      using that no_wrap[OF assms(1-3)] by simp
    then have small: "\<not> is_large old"
      using assms(2) by (auto simp: value_ok_def value_size_def)
    then show ?thesis
      by (simp add: small_to_small_def memmove_def read_at_def write_at_def
          split: sum.splits)
  qed
  moreover have "operate c (new_oper d app) tx (Some old) (lock_of old) None
                 \<noteq> Inl Assertion_failed"
    using operate_total[OF assms, of app] by auto
  ultimately show ?thesis by blast
qed

lemma result_in_range:
  assumes "cfg_ok c" and "provider_ok d"
    and "\<forall>v. kv sl key = Some v \<longrightarrow> value_ok c (slice_cache sl) v"
  shows "\<exists>r sl'. btree_append_prepend c key sl d app = Inr (Some r, sl') \<and>
               (case kv sl key of
                  None \<Rightarrow> r = apr_not_found \<and> sl' = sl
                | Some v \<Rightarrow>
                    r = (if MAX_VALUE_SIZE c < value_size v + get_size d then apr_too_large
                         else if dp_fail d = None then apr_success
                         else apr_data_provider_failed))"
proof (cases "kv sl key")
  case None
  then show ?thesis
    by (simp add: btree_append_prepend_def run_btree_modify_oper_def operate_def)
next
  case (Some v)
  then have "value_ok c (slice_cache sl) v" using assms(3) by simp
  from operate_total[OF assms(1) this assms(2), of app]
  show ?thesis
    using Some
    by (auto simp: btree_append_prepend_def run_btree_modify_oper_def
        acquire_old_large_value_Some)
qed

section \<open>The claims\<close>

text \<open>
  C1. For an old value that obeys the representation invariant and a provider whose
  size keeps the total within \<open>MAX_VALUE_SIZE\<close>, if the provider's fill succeeds then
  \<open>operate\<close> returns true with result success and hands back a new value whose bytes are
  the old bytes followed by the provider's bytes for append, and the provider's bytes
  followed by the old bytes for prepend, whichever of the three transitions is taken;
  the new value obeys the representation invariant again.
\<close>

theorem operate_success_bytes:
  assumes "cfg_ok c" and "value_ok c tx old"
    and "value_size old + get_size d \<le> MAX_VALUE_SIZE c"
    and "dp_fail d = None"
  shows "\<exists>f v. operate c (new_oper d app) tx (Some old) (lock_of old) None = Inr f \<and>
               f_return f \<and> o_result (f_self f) = Some apr_success \<and>
               f_new_value f = Some v \<and> value_ok c (f_tx f) v \<and>
               value_bytes (f_tx f) v
                 = (if app then value_bytes tx old @ dp_bytes d
                    else dp_bytes d @ value_bytes tx old)"
proof (cases "is_large old")
  case False
  show ?thesis
  proof (cases "value_size old + get_size d \<le> MAX_IN_NODE_VALUE_SIZE c")
    case True
    from small_small_case[OF assms(1) False assms(2) True, of app None None] assms(4)
    show ?thesis by (auto simp: lock_of_small[OF False])
  next
    case big: False
    then have "MAX_IN_NODE_VALUE_SIZE c < value_size old + get_size d" by simp
    from small_large_case[OF assms(1) False assms(2) this assms(3), of app None None] assms(4)
    show ?thesis by (auto simp: lock_of_small[OF False])
  qed
next
  case True
  show ?thesis
  proof (cases app)
    case True
    from large_large_append[OF assms(1) \<open>is_large old\<close> assms(2,3), of None] assms(4) True
    show ?thesis by auto
  next
    case False
    from large_large_prepend[OF assms(1) \<open>is_large old\<close> assms(2,3), of None] assms(4) False
    show ?thesis by auto
  qed
qed

theorem operate_success_bytes_witness:
  "cfg_ok cfg0 \<and> value_ok cfg0 tx_big v_big \<and>
   value_size v_big + get_size (dp_ok [21, 22, 23, 24, 25, 26]) \<le> MAX_VALUE_SIZE cfg0 \<and>
   dp_fail (dp_ok [21, 22, 23, 24, 25, 26]) = None \<and>
   (\<exists>f v. operate cfg0 (new_oper (dp_ok [21, 22, 23, 24, 25, 26]) False) tx_big (Some v_big)
             (lock_of v_big) None = Inr f \<and>
          f_return f \<and> o_result (f_self f) = Some apr_success \<and>
          f_new_value f = Some v \<and> value_ok cfg0 (f_tx f) v \<and>
          value_bytes (f_tx f) v = [21, 22, 23, 24, 25, 26, 1, 2, 3, 4, 5, 6, 7, 8, 9])"
proof -
  have h3: "value_size v_big + get_size (dp_ok [21, 22, 23, 24, 25, 26]) \<le> MAX_VALUE_SIZE cfg0"
    by (simp add: value_size_def v_big_def is_large_def get_size_def dp_ok_def cfg0_def)
  have h4: "dp_fail (dp_ok [21, 22, 23, 24, 25, 26]) = None"
    by (simp add: dp_ok_def)
  from operate_success_bytes[OF cfg0_ok v_big_ok h3 h4, of False]
  show ?thesis
    using cfg0_ok v_big_ok h3 h4 by (simp add: v_big_bytes) (simp add: dp_ok_def)
qed

text \<open>
  C2. When the provider fails during the fill, \<open>operate\<close> returns false with result
  provider-failed and hands back no new value; the old value still obeys the
  representation invariant and has the bytes it had. For a large old value the
  reference tied to the buffer is the old one again (the buffer was shrunk by the same
  amount at the same end) and no other buffer changed; for a small old value that
  would have become large, the cache has one more buffer, the new one, marked deleted,
  and the operation holds no buffer; for a small old value that would have stayed
  small the cache is unchanged.
\<close>

theorem operate_provider_failed:
  assumes "cfg_ok c" and "value_ok c tx old"
    and "value_size old + get_size d \<le> MAX_VALUE_SIZE c"
    and "dp_fail d \<noteq> None"
  shows "\<exists>f. operate c (new_oper d app) tx (Some old) (lock_of old) None = Inr f \<and>
             \<not> f_return f \<and> o_result (f_self f) = Some apr_data_provider_failed \<and>
             f_new_value f = None \<and>
             value_ok c (f_tx f) old \<and> value_bytes (f_tx f) old = value_bytes tx old \<and>
             (if is_large old
              then v_ref (o_value (f_self f)) = v_ref old \<and> length (f_tx f) = length tx \<and>
                   (\<forall>i. i \<noteq> r_root (v_ref old) \<longrightarrow> f_tx f ! i = tx ! i)
              else if value_size old + get_size d \<le> MAX_IN_NODE_VALUE_SIZE c
              then f_tx f = tx
              else (\<exists>b. f_tx f = tx @ [b] \<and> lb_deleted b) \<and>
                   o_large_buflock (f_self f) = None)"
proof (cases "is_large old")
  case False
  then have same: "value_ok c tx' old" "value_bytes tx' old = value_bytes tx old" for tx'
    using assms(2) by (simp_all add: value_ok_def value_bytes_def)
  show ?thesis
  proof (cases "value_size old + get_size d \<le> MAX_IN_NODE_VALUE_SIZE c")
    case True
    from small_small_case[OF assms(1) False assms(2) True, of app None None] assms(4)
    show ?thesis using False True same by (auto simp: lock_of_small[OF False])
  next
    case big: False
    then have "MAX_IN_NODE_VALUE_SIZE c < value_size old + get_size d" by simp
    from small_large_case[OF assms(1) False assms(2) this assms(3), of app None None] assms(4)
    show ?thesis using False big same by (auto simp: lock_of_small[OF False])
  qed
next
  case True
  show ?thesis
  proof (cases app)
    case app: True
    from large_large_append[OF assms(1) True assms(2,3), of None] assms(4) app
    show ?thesis using True by auto
  next
    case app: False
    from large_large_prepend[OF assms(1) True assms(2,3), of None] assms(4) app
    show ?thesis using True by auto
  qed
qed

theorem operate_provider_failed_witness:
  "cfg_ok cfg0 \<and> value_ok cfg0 tx_big v_big \<and>
   value_size v_big + get_size (dp_failing [21, 22, 23, 24, 25, 26] 3) \<le> MAX_VALUE_SIZE cfg0 \<and>
   dp_fail (dp_failing [21, 22, 23, 24, 25, 26] 3) \<noteq> None \<and>
   (\<exists>f. operate cfg0 (new_oper (dp_failing [21, 22, 23, 24, 25, 26] 3) False) tx_big
             (Some v_big) (lock_of v_big) None = Inr f \<and>
        \<not> f_return f \<and> o_result (f_self f) = Some apr_data_provider_failed \<and>
        f_new_value f = None \<and>
        value_ok cfg0 (f_tx f) v_big \<and> value_bytes (f_tx f) v_big = [1, 2, 3, 4, 5, 6, 7, 8, 9] \<and>
        v_ref (o_value (f_self f)) = v_ref v_big \<and> length (f_tx f) = length tx_big)"
proof -
  have h3: "value_size v_big + get_size (dp_failing [21, 22, 23, 24, 25, 26] 3)
            \<le> MAX_VALUE_SIZE cfg0"
    by (simp add: value_size_def v_big_def is_large_def get_size_def dp_failing_def cfg0_def)
  have h4: "dp_fail (dp_failing [21, 22, 23, 24, 25, 26] 3) \<noteq> None"
    by (simp add: dp_failing_def)
  have l: "is_large v_big" by (simp add: is_large_def v_big_def)
  from operate_provider_failed[OF cfg0_ok v_big_ok h3 h4, of False]
  show ?thesis
    using cfg0_ok v_big_ok h3 h4 l by (simp add: v_big_bytes) blast
qed

text \<open>
  C3. The claim wants the result too-large, and nothing changed, whenever the old
  length plus the provider's size exceeds \<open>MAX_VALUE_SIZE\<close>. Line 18 adds the two in a
  \<^verbatim>\<open>size_t\<close> and line 19 checks the wrapped sum. For the small value of three bytes and
  a provider of declared size \<open>2 ^ 64 - 1\<close> the sum read is 2: the check passes and the
  small-to-small branch hands the provider a span of \<open>2 ^ 64 - 1\<close> bytes at byte 3 of
  the inline array. A provider that writes its bytes leaves the array; with one that
  throws at once \<open>operate\<close> ends with result provider-failed. Neither ends in too-large.
\<close>

theorem operate_too_large_wraps:
  "cfg_ok cfg0 \<and> value_ok cfg0 [] v_small \<and>
   MAX_VALUE_SIZE cfg0 < value_size v_small + get_size (dp_ok (replicate (2 ^ 64 - 1) 0)) \<and>
   (value_size v_small + get_size (dp_ok (replicate (2 ^ 64 - 1) 0))) mod 2 ^ 64 = 2 \<and>
   operate cfg0 (new_oper (dp_ok (replicate (2 ^ 64 - 1) 0)) True) [] (Some v_small)
     (lock_of v_small) None = Inl Out_of_bounds \<and>
   operate cfg0 (new_oper (dp_failing (replicate (2 ^ 64 - 1) 0) 0) True) [] (Some v_small)
     (lock_of v_small) None = Inr frame_wrapped_failed \<and>
   o_result (f_self frame_wrapped_failed) = Some apr_data_provider_failed"
proof -
  have r5: "replicate 5 (0::byte) = [0, 0, 0, 0, 0]"
    by (simp add: numeral_eq_Suc)
  have run1: "operate cfg0 (new_oper (dp_ok (replicate (2 ^ 64 - 1) 0)) True) [] (Some v_small)
                (lock_of v_small) None = Inl Out_of_bounds"
    by (simp add: eval_defs r5 del: replicate_numeral)
  have run2: "operate cfg0 (new_oper (dp_failing (replicate (2 ^ 64 - 1) 0) 0) True) []
                (Some v_small) (lock_of v_small) None = Inr frame_wrapped_failed"
    by (simp add: eval_defs r5 frame_wrapped_failed_def del: replicate_numeral)
  show ?thesis
    using cfg0_ok v_small_ok[of "[]"] run1 run2
    by (simp add: value_size_def is_large_def v_small_def get_size_def dp_ok_def cfg0_def
        frame_wrapped_failed_def)
qed

text \<open>
  C4. Whenever \<open>operate\<close> returns true, the value it hands back is tagged small if and
  only if its length is at most \<open>MAX_IN_NODE_VALUE_SIZE\<close>, and its length is the old
  length plus the provider's size.
\<close>

theorem operate_small_iff_inline:
  assumes "cfg_ok c" and "value_ok c tx old"
    and "value_size old + get_size d \<le> MAX_VALUE_SIZE c"
    and "operate c (new_oper d app) tx (Some old) (lock_of old) None = Inr f"
    and "f_return f"
  shows "\<exists>v. f_new_value f = Some v \<and>
             (\<not> is_large v) = (value_size v \<le> MAX_IN_NODE_VALUE_SIZE c) \<and>
             value_size v = value_size old + get_size d"
proof (cases "is_large old")
  case False
  show ?thesis
  proof (cases "value_size old + get_size d \<le> MAX_IN_NODE_VALUE_SIZE c")
    case True
    from small_small_case[OF assms(1) False assms(2) True, of app None None] assms(4,5)
    show ?thesis using True by (auto simp: lock_of_small[OF False])
  next
    case big: False
    then have "MAX_IN_NODE_VALUE_SIZE c < value_size old + get_size d" by simp
    from small_large_case[OF assms(1) False assms(2) this assms(3), of app None None] assms(4,5)
    show ?thesis using big by (auto simp: lock_of_small[OF False])
  qed
next
  case True
  then have big: "MAX_IN_NODE_VALUE_SIZE c < value_size old + get_size d"
    using assms(2) by (simp add: value_ok_def value_size_def)
  show ?thesis
  proof (cases app)
    case app: True
    from large_large_append[OF assms(1) True assms(2,3), of None] assms(4,5) app
    show ?thesis using big by (auto simp: value_size_def)
  next
    case app: False
    from large_large_prepend[OF assms(1) True assms(2,3), of None] assms(4,5) app
    show ?thesis using big by (auto simp: value_size_def)
  qed
qed

theorem operate_small_iff_inline_witness:
  "cfg_ok cfg0 \<and> value_ok cfg0 [] v_small \<and>
   value_size v_small + get_size (dp_ok [9, 8, 7, 6, 5, 4]) \<le> MAX_VALUE_SIZE cfg0 \<and>
   (\<exists>f. operate cfg0 (new_oper (dp_ok [9, 8, 7, 6, 5, 4]) True) [] (Some v_small)
            (lock_of v_small) None = Inr f \<and> f_return f \<and>
        (\<exists>v. f_new_value f = Some v \<and>
             (\<not> is_large v) = (value_size v \<le> MAX_IN_NODE_VALUE_SIZE cfg0) \<and>
             value_size v = value_size v_small + get_size (dp_ok [9, 8, 7, 6, 5, 4])))"
proof -
  have h3: "value_size v_small + get_size (dp_ok [9, 8, 7, 6, 5, 4]) \<le> MAX_VALUE_SIZE cfg0"
    by (simp add: value_size_def v_small_def is_large_def get_size_def dp_ok_def cfg0_def)
  from operate_small_iff_inline[OF cfg0_ok v_small_ok h3 small_to_large_run]
  show ?thesis
    using cfg0_ok v_small_ok h3 by (simp add: small_to_large_run)
qed

text \<open>
  C5. For an old value that obeys the representation invariant and a provider whose
  size keeps the total within \<open>MAX_VALUE_SIZE\<close>, \<open>operate\<close> returns, and the buffer
  group it handed to the provider has spans whose lengths add up to the provider's
  size, in every transition and whether the fill succeeded or not. When the new value is large,
  the spans are those of the reserved range in the grown buffer, whose reference \<open>r\<close>
  is the one of the value handed back: mapped through the segments they cover exactly
  the addresses of the positions from the old length (append) or from 0 (prepend) on,
  each span lies inside one segment and is not empty, and the spans lie in consecutive
  segments, one span in each.
\<close>

theorem operate_buffer_group:
  assumes "cfg_ok c" and "value_ok c tx old"
    and "value_size old + get_size d \<le> MAX_VALUE_SIZE c"
  shows "\<exists>f. operate c (new_oper d app) tx (Some old) (lock_of old) None = Inr f \<and>
         get_size_bg (o_buffer_group (f_self f)) = get_size d \<and>
         (MAX_IN_NODE_VALUE_SIZE c < value_size old + get_size d \<longrightarrow>
            (\<exists>r. r_size r = value_size old + get_size d \<and> r_offset r < block_size c \<and>
                 (\<forall>v. f_new_value f = Some v \<longrightarrow> v_ref v = r) \<and>
                 concat (map (span_addrs c) (buffers (o_buffer_group (f_self f))))
                   = [r_offset r + (if app then value_size old else 0) ..<
                      r_offset r + (if app then value_size old else 0) + get_size d] \<and>
                 (\<forall>b \<in> set (buffers (o_buffer_group (f_self f))). in_one_segment c b) \<and>
                 map span_seg (buffers (o_buffer_group (f_self f)))
                   = map Some
                       [(r_offset r + (if app then value_size old else 0)) div block_size c ..<
                        (r_offset r + (if app then value_size old else 0)) div block_size c
                          + length (buffers (o_buffer_group (f_self f)))]))"
proof -
  from operate_fit_result[OF assms, of app]
  obtain f where f: "operate c (new_oper d app) tx (Some old) (lock_of old) None = Inr f"
    by blast
  from buffer_group_spans[OF assms f] f show ?thesis
    by (intro exI[of _ f] conjI) simp_all
qed

theorem operate_buffer_group_witness:
  "cfg_ok cfg0 \<and> value_ok cfg0 tx_big v_big \<and>
   value_size v_big + get_size (dp_ok [21, 22, 23, 24, 25, 26]) \<le> MAX_VALUE_SIZE cfg0 \<and>
   operate cfg0 (new_oper (dp_ok [21, 22, 23, 24, 25, 26]) True) tx_big (Some v_big)
     (lock_of v_big) None = Inr frame_append_big \<and>
   MAX_IN_NODE_VALUE_SIZE cfg0 < value_size v_big + get_size (dp_ok [21, 22, 23, 24, 25, 26]) \<and>
   get_size_bg (o_buffer_group (f_self frame_append_big)) = 6 \<and>
   concat (map (span_addrs cfg0) (buffers (o_buffer_group (f_self frame_append_big))))
     = [11 ..< 17] \<and>
   map span_seg (buffers (o_buffer_group (f_self frame_append_big))) = map Some [2 ..< 5]"
proof -
  have h3: "value_size v_big + get_size (dp_ok [21, 22, 23, 24, 25, 26]) \<le> MAX_VALUE_SIZE cfg0"
    by (simp add: value_size_def v_big_def is_large_def get_size_def dp_ok_def cfg0_def)
  have big: "MAX_IN_NODE_VALUE_SIZE cfg0
             < value_size v_big + get_size (dp_ok [21, 22, 23, 24, 25, 26])"
    by (simp add: value_size_def v_big_def is_large_def get_size_def dp_ok_def cfg0_def)
  have sz: "get_size (dp_ok [21, 22, 23, 24, 25, 26]) = 6" "value_size v_big = 9"
    "block_size cfg0 = 4"
    by (simp_all add: get_size_def dp_ok_def value_size_def v_big_def is_large_def cfg0_def)
  have nv: "f_new_value frame_append_big
            = Some \<lparr>v_size = 16, v_large = True, v_contents = [],
                    v_ref = \<lparr>r_size = 15, r_offset = 2, r_root = 0\<rparr>\<rparr>"
    by (simp add: frame_append_big_def)
  have len: "length (buffers (o_buffer_group (f_self frame_append_big))) = 3"
    by (simp add: frame_append_big_def)
  from operate_buffer_group[OF cfg0_ok v_big_ok h3, of True] append_big_run big
  obtain r where sum: "get_size_bg (o_buffer_group (f_self frame_append_big))
                       = get_size (dp_ok [21, 22, 23, 24, 25, 26])"
    and r: "\<forall>v. f_new_value frame_append_big = Some v \<longrightarrow> v_ref v = r"
    and cover: "concat (map (span_addrs cfg0) (buffers (o_buffer_group (f_self frame_append_big))))
                = [r_offset r + value_size v_big ..<
                   r_offset r + value_size v_big + get_size (dp_ok [21, 22, 23, 24, 25, 26])]"
    and segs: "map span_seg (buffers (o_buffer_group (f_self frame_append_big)))
               = map Some [(r_offset r + value_size v_big) div block_size cfg0 ..<
                           (r_offset r + value_size v_big) div block_size cfg0
                             + length (buffers (o_buffer_group (f_self frame_append_big)))]"
    by auto
  have "r_offset r = 2" using r nv by auto
  then show ?thesis
    using cfg0_ok v_big_ok h3 append_big_run big sum cover segs
    by (simp only: sz len) simp
qed

text \<open>
  C6. The claim wants every invocation to produce one of the four results. With the
  key \<open>k\<close> bound to the large value of nine bytes and a provider of declared size
  \<open>2 ^ 64 - 4\<close>, a prepend computes the wrapped sum 5 at line 18, passes the size check,
  enters the small-to-small branch with a large old value and fails the assertion of
  line 42: \<open>btree_append_prepend\<close> does not return, and \<open>result\<close> was never assigned. For
  a key without a value the result is not-found and the slice is unchanged.
\<close>

theorem btree_append_prepend_no_result:
  "cfg_ok cfg0 \<and> kv sl_big ''k'' = Some v_big \<and> value_ok cfg0 (slice_cache sl_big) v_big \<and>
   (value_size v_big + get_size (dp_ok (replicate (2 ^ 64 - 4) 0))) mod 2 ^ 64 = 5 \<and>
   btree_append_prepend cfg0 ''k'' sl_big (dp_ok (replicate (2 ^ 64 - 4) 0)) False
     = Inl Assertion_failed \<and>
   btree_append_prepend cfg0 ''j'' sl_big (dp_ok (replicate (2 ^ 64 - 4) 0)) False
     = Inr (Some apr_not_found, sl_big)"
proof -
  have l: "is_large v_big"
    by (simp add: is_large_def v_big_def)
  have run: "operate cfg0 (new_oper (dp_ok (replicate (2 ^ 64 - 4) 0)) False) tx_big (Some v_big)
               (lock_of v_big) None = Inl Assertion_failed"
    by (simp add: eval_defs del: replicate_numeral)
  have k: "kv sl_big ''k'' = Some v_big" "kv sl_big ''j'' = None" "slice_cache sl_big = tx_big"
    by (simp_all add: sl_big_def)
  have no: "btree_append_prepend cfg0 ''k'' sl_big (dp_ok (replicate (2 ^ 64 - 4) 0)) False
            = Inl Assertion_failed"
    using run
    by (simp add: btree_append_prepend_def run_btree_modify_oper_def k l Let_def
        acquire_old_large_value_Some)
  have nf: "btree_append_prepend cfg0 ''j'' sl_big (dp_ok (replicate (2 ^ 64 - 4) 0)) False
            = Inr (Some apr_not_found, sl_big)"
    by (simp add: btree_append_prepend_def run_btree_modify_oper_def k operate_def Let_def)
  show ?thesis
    using cfg0_ok v_big_ok no nf
    by (simp add: k value_size_def is_large_def v_big_def get_size_def dp_ok_def)
qed

text \<open>
  C7, as amended. For an old value that obeys the representation invariant and a
  provider of size 0 whose fill succeeds, \<open>operate\<close> returns true with result success,
  and the value it hands back has the tag, the length and the bytes of the old value.
\<close>

theorem operate_zero_delta:
  assumes "cfg_ok c" and "value_ok c tx old" and "get_size d = 0" and "dp_fail d = None"
  shows "\<exists>f v. operate c (new_oper d app) tx (Some old) (lock_of old) None = Inr f \<and>
               f_return f \<and> o_result (f_self f) = Some apr_success \<and>
               f_new_value f = Some v \<and> is_large v = is_large old \<and>
               value_size v = value_size old \<and>
               value_bytes (f_tx f) v = value_bytes tx old"
proof -
  have fit: "value_size old + get_size d \<le> MAX_VALUE_SIZE c"
    using value_size_bound(1)[OF assms(1,2)] assms(3) by simp
  have nil: "dp_bytes d = []" using assms(3) by (simp add: get_size_def)
  show ?thesis
  proof (cases "is_large old")
    case False
    then have "value_size old + get_size d \<le> MAX_IN_NODE_VALUE_SIZE c"
      using assms(2,3) by (simp add: value_ok_def value_size_def)
    from small_small_case[OF assms(1) False assms(2) this, of app None None] assms(3,4) nil False
    show ?thesis by (auto simp: lock_of_small[OF False])
  next
    case True
    show ?thesis
    proof (cases app)
      case app: True
      from large_large_append[OF assms(1) True assms(2) fit, of None] assms(4)
      obtain f v where "operate c (new_oper d True) tx (Some old) (lock_of old) None = Inr f"
        "f_return f" "o_result (f_self f) = Some apr_success" "f_new_value f = Some v"
        "is_large v" "v_ref v = (v_ref old)\<lparr>r_size := value_size old + get_size d\<rparr>"
        "value_bytes (f_tx f) v = value_bytes tx old @ dp_bytes d"
        by auto
      then show ?thesis
        using assms(3) nil True app
        by (intro exI[of _ f] exI[of _ v]) (simp add: value_size_def)
    next
      case app: False
      from large_large_prepend[OF assms(1) True assms(2) fit, of None] assms(4)
      obtain f v where "operate c (new_oper d False) tx (Some old) (lock_of old) None = Inr f"
        "f_return f" "o_result (f_self f) = Some apr_success" "f_new_value f = Some v"
        "is_large v" "r_size (v_ref v) = value_size old + get_size d"
        "value_bytes (f_tx f) v = dp_bytes d @ value_bytes tx old"
        by auto
      then show ?thesis
        using assms(3) nil True app
        by (intro exI[of _ f] exI[of _ v]) (simp add: value_size_def)
    qed
  qed
qed

theorem operate_zero_delta_witness:
  "cfg_ok cfg0 \<and> value_ok cfg0 tx_big v_big \<and> get_size (dp_ok []) = 0 \<and>
   dp_fail (dp_ok []) = None \<and>
   (\<exists>f v. operate cfg0 (new_oper (dp_ok []) False) tx_big (Some v_big) (lock_of v_big) None
             = Inr f \<and>
          f_return f \<and> o_result (f_self f) = Some apr_success \<and>
          f_new_value f = Some v \<and> is_large v \<and> value_size v = 9 \<and>
          value_bytes (f_tx f) v = [1, 2, 3, 4, 5, 6, 7, 8, 9])"
proof -
  have h3: "get_size (dp_ok []) = 0" by (simp add: get_size_def dp_ok_def)
  have h4: "dp_fail (dp_ok []) = None" by (simp add: dp_ok_def)
  have l: "is_large v_big" "value_size v_big = 9"
    by (simp_all add: is_large_def value_size_def v_big_def)
  from operate_zero_delta[OF cfg0_ok v_big_ok h3 h4, of False]
  show ?thesis
    using cfg0_ok v_big_ok h3 h4 by (simp add: v_big_bytes l)
qed

text \<open>
  C7 as stated fails: a provider of size 0 may still throw (here on the small value
  \<open>v_small\<close>, appending), and then \<open>operate\<close> returns false with result
  provider-failed.
\<close>

theorem zero_delta_counterexample:
  "cfg_ok cfg0 \<and> value_ok cfg0 [] v_small \<and> get_size (dp_failing [] 0) = 0 \<and>
   operate cfg0 (new_oper (dp_failing [] 0) True) [] (Some v_small) (lock_of v_small) None
     = Inr frame_zero_failed \<and>
   f_return frame_zero_failed = False \<and>
   o_result (f_self frame_zero_failed) = Some apr_data_provider_failed"
  using cfg0_ok v_small_ok[of "[]"]
  by (simp add: eval_defs frame_zero_failed_def)



text \<open>
  C9. The claim wants the assertion at the head of the small-to-small branch to hold
  always. With the large value of nine bytes and a provider of declared size
  \<open>2 ^ 64 - 3\<close>, the sum of line 18 wraps to 6: it passes the size check of line 19 and
  is at most the inline threshold, so line 42 is reached with a large old value and
  the assertion fails.
\<close>

theorem small_to_small_assertion_fails:
  "cfg_ok cfg0 \<and> value_ok cfg0 tx_big v_big \<and> is_large v_big \<and>
   (value_size v_big + get_size (dp_ok (replicate (2 ^ 64 - 3) 0))) mod 2 ^ 64 = 6 \<and>
   6 \<le> MAX_VALUE_SIZE cfg0 \<and> 6 \<le> MAX_IN_NODE_VALUE_SIZE cfg0 \<and>
   small_to_small ((new_oper (dp_ok (replicate (2 ^ 64 - 3) 0)) True)
                     \<lparr>o_value := valuecpy cfg0 v_big\<rparr>) tx_big v_big (lock_of v_big)
     = Inl Assertion_failed \<and>
   operate cfg0 (new_oper (dp_ok (replicate (2 ^ 64 - 3) 0)) True) tx_big (Some v_big)
     (lock_of v_big) None = Inl Assertion_failed"
proof -
  have l: "is_large v_big"
    by (simp add: is_large_def v_big_def)
  have sz: "value_size v_big = 9"
    by (simp add: value_size_def is_large_def v_big_def)
  have s2s: "small_to_small ((new_oper (dp_ok (replicate (2 ^ 64 - 3) 0)) True)
                     \<lparr>o_value := valuecpy cfg0 v_big\<rparr>) tx_big v_big (lock_of v_big)
             = Inl Assertion_failed"
    by (simp add: small_to_small_def l)
  have run: "operate cfg0 (new_oper (dp_ok (replicate (2 ^ 64 - 3) 0)) True) tx_big (Some v_big)
               (lock_of v_big) None = Inl Assertion_failed"
    using s2s l
    by (simp add: operate_def prepare_def Let_def sz get_size_def dp_ok_def cfg0_def new_oper_def)
  show ?thesis
    using cfg0_ok v_big_ok s2s run l
    by (simp add: sz get_size_def dp_ok_def cfg0_def)
qed

text \<open>
  C10. The factory builds the large provider exactly for a large value; either
  provider's size is the value's length; and the small provider hands out one span
  over its own copy of the bytes, so what it delivers is the bytes the value had when
  the provider was built.
\<close>

theorem create_provider:
  assumes "\<not> is_large v \<longrightarrow> v_size v \<le> length (v_contents v)"
  shows "\<exists>p. create v = Inr p \<and>
             ((\<exists>lp. p = Large_provider lp) = is_large v) \<and>
             get_size_vp p = value_size v \<and>
             (\<forall>sp. p = Small_provider sp \<longrightarrow>
                (\<exists>sp' g. get_data_as_buffers_sp sp = Inr (sp', g) \<and>
                         value_sp sp' = value_sp sp \<and>
                         get_size_sp sp' = value_size v \<and>
                         bytes_sp sp' g = take (v_size v) (v_contents v)))"
proof (cases "is_large v")
  case True
  then show ?thesis
    by (simp add: create_def new_large_value_data_provider_def get_size_lp_def value_size_def)
next
  case False
  then have "v_size v \<le> length (v_contents v)" using assms by simp
  then show ?thesis
    using False
    by (simp add: create_def new_small_value_data_provider_def read_at_def value_size_def
        get_size_sp_def get_data_as_buffers_sp_def bytes_sp_def add_cbuffer_def Let_def)
qed

theorem create_provider_witness:
  "v_size v_small \<le> length (v_contents v_small) \<and>
   (\<exists>sp sp' g. create v_small = Inr (Small_provider sp) \<and>
        get_size_vp (Small_provider sp) = 3 \<and>
        get_data_as_buffers_sp sp = Inr (sp', g) \<and> bytes_sp sp' g = [1, 2, 3])"
proof -
  have h: "\<not> is_large v_small \<longrightarrow> v_size v_small \<le> length (v_contents v_small)"
    by (simp add: v_small_def)
  have s: "\<not> is_large v_small" "value_size v_small = 3" "v_size v_small = 3"
    "v_contents v_small = [1, 2, 3]"
    by (simp_all add: is_large_def value_size_def v_small_def)
  from create_provider[OF h]
  obtain p where p: "create v_small = Inr p" "\<not> (\<exists>lp. p = Large_provider lp)"
    "get_size_vp p = 3"
    "\<forall>sp. p = Small_provider sp \<longrightarrow>
       (\<exists>sp' g. get_data_as_buffers_sp sp = Inr (sp', g) \<and> value_sp sp' = value_sp sp \<and>
                get_size_sp sp' = 3 \<and> bytes_sp sp' g = [1, 2, 3])"
    by (auto simp: s)
  then obtain sp where "p = Small_provider sp" by (cases p) auto
  with p show ?thesis by (auto simp: s)
qed

end
